theory Spec2Isabelle
  imports Main
begin

section \<open>JavaScript values and the store\<close>

text \<open>
  The Array schema type of the document store works on JavaScript values. The model
  keeps the part of the language that the methods of \<^verbatim>\<open>SchemaTypeArray\<close> look at:
  \<^item> primitives: \<^verbatim>\<open>undefined\<close>, \<^verbatim>\<open>null\<close>, booleans, numbers and strings. Numbers are
    the integer-valued ones (an array length, a count, a comparison result); fractions,
    infinities, \<^verbatim>\<open>NaN\<close> as an input and the sign of zero are left out. Where the source
    computes \<^verbatim>\<open>NaN\<close> the result type says so;
  \<^item> objects live in a store and are named by their address, so that two arrays with
    the same elements are still two objects: \<^verbatim>\<open>Array.prototype.includes\<close> and
    \<^verbatim>\<open>===\<close> compare objects by identity, primitives by content. On the values
    above both coincide with equality of \<open>jsval\<close>;
  \<^item> a store cell is an array (its elements in index order, holes read as
    \<^verbatim>\<open>undefined\<close>) or some other object, about which only its identity is known:
    it is not an array and has none of the properties \<^verbatim>\<open>length\<close>, \<^verbatim>\<open>includes\<close>,
    \<^verbatim>\<open>slice\<close>, \<^verbatim>\<open>push\<close> or an index.
\<close>

type_synonym addr = nat

datatype jsval = Undefined | Null | Bool bool | Num int | Str string | Ref addr

datatype cell = ArrayCell "jsval list" | ObjectCell

type_synonym heap = "cell list"

datatype error = ValidationError string | TypeError string

text \<open>
  Some calls leave the fragment above (a method of \<^verbatim>\<open>String.prototype\<close> that converts
  its argument to a string, a string or an object used as a number). A function that can
  reach such a call returns an \<open>option\<close>, and \<open>None\<close> there means "not modelled", never
  a result of the program. Inside, \<open>Inl\<close> is a thrown error and \<open>Inr\<close> a returned value.
\<close>

text \<open>\<^verbatim>\<open>!value\<close> is \<open>\<not> truthy value\<close>.\<close>

fun truthy :: "jsval \<Rightarrow> bool" where
  "truthy Undefined = False"
| "truthy Null = False"
| "truthy (Bool b) = b"
| "truthy (Num n) = (n \<noteq> 0)"
| "truthy (Str s) = (s \<noteq> [])"
| "truthy (Ref a) = True"

text \<open>\<^verbatim>\<open>value == null\<close>: true of \<^verbatim>\<open>null\<close> and \<^verbatim>\<open>undefined\<close> only.\<close>

definition nullish :: "jsval \<Rightarrow> bool" where
  "nullish v = (v = Undefined \<or> v = Null)"

definition cell_at :: "heap \<Rightarrow> addr \<Rightarrow> cell" where
  "cell_at h a = (if a < length h then h ! a else ObjectCell)"

text \<open>
  A new object gets the next free address. An address past the last cell names no
  object of a running program; \<open>cell_at\<close> reads it as an object that is not an array.
\<close>

definition alloc :: "heap \<Rightarrow> cell \<Rightarrow> addr \<times> heap" where
  "alloc h c = (length h, h @ [c])"

definition array_at :: "heap \<Rightarrow> jsval \<Rightarrow> (addr \<times> jsval list) option" where
  "array_at h v =
     (case v of
        Ref a \<Rightarrow> (case cell_at h a of ArrayCell xs \<Rightarrow> Some (a, xs) | ObjectCell \<Rightarrow> None)
      | _ \<Rightarrow> None)"

definition isArray :: "heap \<Rightarrow> jsval \<Rightarrow> bool" where
  "isArray h v = (array_at h v \<noteq> None)"

text \<open>
  \<^verbatim>\<open>v.length\<close> for a \<open>v\<close> that is neither \<^verbatim>\<open>null\<close> nor \<^verbatim>\<open>undefined\<close>: arrays and
  strings have one, for every other value the property is \<^verbatim>\<open>undefined\<close> (\<open>None\<close>).
\<close>

definition get_length :: "heap \<Rightarrow> jsval \<Rightarrow> nat option" where
  "get_length h v =
     (case v of
        Str s \<Rightarrow> Some (length s)
      | Ref a \<Rightarrow> (case cell_at h a of ArrayCell xs \<Rightarrow> Some (length xs) | ObjectCell \<Rightarrow> None)
      | _ \<Rightarrow> None)"

text \<open>
  \<^verbatim>\<open>v[i]\<close>, again for a \<open>v\<close> that is neither \<^verbatim>\<open>null\<close> nor \<^verbatim>\<open>undefined\<close>: an index
  out of range reads \<^verbatim>\<open>undefined\<close>, a string yields its characters.
\<close>

definition get_index :: "heap \<Rightarrow> jsval \<Rightarrow> nat \<Rightarrow> jsval" where
  "get_index h v i =
     (case v of
        Str s \<Rightarrow> (if i < length s then Str [s ! i] else Undefined)
      | Ref a \<Rightarrow>
          (case cell_at h a of
             ArrayCell xs \<Rightarrow> (if i < length xs then xs ! i else Undefined)
           | ObjectCell \<Rightarrow> Undefined)
      | _ \<Rightarrow> Undefined)"

text \<open>
  \<^verbatim>\<open>arr[i] = v\<close> on the array at address \<open>a\<close>; a write past the end extends the
  array, as JavaScript does.
\<close>

definition set_index :: "heap \<Rightarrow> addr \<Rightarrow> nat \<Rightarrow> jsval \<Rightarrow> heap" where
  "set_index h a i v =
     (case cell_at h a of
        ArrayCell xs \<Rightarrow>
          h[a := ArrayCell (if i < length xs then xs[i := v]
                            else xs @ replicate (i - length xs) Undefined @ [v])]
      | ObjectCell \<Rightarrow> h)"

text \<open>\<^verbatim>\<open>arr.push(v)\<close> on the array at address \<open>a\<close>.\<close>

definition push :: "heap \<Rightarrow> addr \<Rightarrow> jsval \<Rightarrow> heap" where
  "push h a v =
     (case cell_at h a of
        ArrayCell xs \<Rightarrow> h[a := ArrayCell (xs @ [v])]
      | ObjectCell \<Rightarrow> h)"

text \<open>
  \<^verbatim>\<open>Array.prototype.slice(start, end)\<close>: a negative index counts from the end, and
  both are clamped to the array; without \<^verbatim>\<open>end\<close> (\<open>None\<close>) the slice runs to the end.
  \<^verbatim>\<open>String.prototype.slice\<close> treats its indices the same way.
\<close>

definition relative_index :: "nat \<Rightarrow> int \<Rightarrow> nat" where
  "relative_index len k = (if k < 0 then nat (max (int len + k) 0) else min (nat k) len)"

definition slice :: "'a list \<Rightarrow> int \<Rightarrow> int option \<Rightarrow> 'a list" where
  "slice xs start stop =
     (let k = relative_index (length xs) start;
          final = (case stop of None \<Rightarrow> length xs | Some e \<Rightarrow> relative_index (length xs) e)
      in take (final - k) (drop k xs))"

text \<open>
  \<^verbatim>\<open>value.slice(start, end)\<close> by receiver: an array yields a new array, a string a
  string; any other value has no \<^verbatim>\<open>slice\<close>, and the call throws.
\<close>

definition js_slice ::
  "heap \<Rightarrow> jsval \<Rightarrow> int \<Rightarrow> int option \<Rightarrow> error + jsval \<times> heap" where
  "js_slice h v start stop =
     (case v of
        Str s \<Rightarrow> Inr (Str (slice s start stop), h)
      | Ref a \<Rightarrow>
          (case cell_at h a of
             ArrayCell xs \<Rightarrow>
               (let (r, h') = alloc h (ArrayCell (slice xs start stop)) in Inr (Ref r, h'))
           | ObjectCell \<Rightarrow> Inl (TypeError ''value.slice is not a function''))
      | _ \<Rightarrow> Inl (TypeError ''value.slice is not a function''))"

text \<open>
  \<^verbatim>\<open>value.includes(x)\<close> by receiver, for a truthy \<open>value\<close>: on an array, membership
  under SameValueZero; \<^verbatim>\<open>String.prototype.includes\<close> is not modelled; any other value
  has no \<^verbatim>\<open>includes\<close>, and the call throws.
\<close>

definition js_includes :: "heap \<Rightarrow> jsval \<Rightarrow> jsval \<Rightarrow> (error + bool) option" where
  "js_includes h v x =
     (case v of
        Str s \<Rightarrow> None
      | Ref a \<Rightarrow>
          (case cell_at h a of
             ArrayCell xs \<Rightarrow> Some (Inr (x \<in> set xs))
           | ObjectCell \<Rightarrow> Some (Inl (TypeError ''value.includes is not a function'')))
      | _ \<Rightarrow> Some (Inl (TypeError ''value.includes is not a function'')))"

text \<open>The string a template literal makes of a value that is not an array.\<close>

definition digit :: "nat \<Rightarrow> char" where
  "digit d = ''0123456789'' ! d"

fun decimal :: "nat \<Rightarrow> string" where
  "decimal n = (if 10 \<le> n then decimal (n div 10) @ [digit (n mod 10)] else [digit n])"

definition to_string :: "jsval \<Rightarrow> string" where
  "to_string v =
     (case v of
        Undefined \<Rightarrow> ''undefined''
      | Null \<Rightarrow> ''null''
      | Bool b \<Rightarrow> (if b then ''true'' else ''false'')
      | Num n \<Rightarrow> (if 0 \<le> n then decimal (nat n) else CHR ''-'' # decimal (nat (- n)))
      | Str s \<Rightarrow> s
      | Ref a \<Rightarrow> ''[object Object]'')"

section \<open>The schema type and its child\<close>

text \<open>
  \<^verbatim>\<open>this.child\<close> is another schema type. Its source is not part of the files at hand,
  so it is a parameter: the six operations every type offers (section 4.1 of the spec),
  as functions of the element and the enclosing document \<open>data\<close>. Only \<open>validate\<close>
  can fail. A child neither reads nor changes the store: an element that is an object
  is handed to it, and returned by it, as an address.
\<close>

record contract =
  c_cast :: "jsval \<Rightarrow> jsval \<Rightarrow> jsval"
  c_validate :: "jsval \<Rightarrow> jsval \<Rightarrow> error + jsval"
  c_compare :: "jsval \<Rightarrow> jsval \<Rightarrow> int"
  c_parse :: "jsval \<Rightarrow> jsval \<Rightarrow> jsval"
  c_value :: "jsval \<Rightarrow> jsval \<Rightarrow> jsval"
  c_match :: "jsval \<Rightarrow> jsval \<Rightarrow> jsval \<Rightarrow> bool"

text \<open>
  An instance of \<^verbatim>\<open>SchemaTypeArray\<close>: its name, the options \<^verbatim>\<open>required\<close> and
  \<^verbatim>\<open>default\<close> (a producer that may allocate the default value), the custom validator
  of the base contract, and the child.
\<close>

record SchemaTypeArray =
  sa_name :: string
  sa_required :: bool
  sa_default :: "heap \<Rightarrow> jsval \<times> heap"
  sa_validator :: "(jsval \<Rightarrow> jsval \<Rightarrow> error + jsval) option"
  sa_child :: contract

text \<open>
  Modelled from the spec: \<^verbatim>\<open>SchemaType.prototype.cast\<close> of \<^verbatim>\<open>../schematype\<close>, which
  is not among the source files. An absent value becomes the configured default, an
  explicit \<^verbatim>\<open>null\<close> stays, any other value is returned as it is.
\<close>

definition SchemaType_cast :: "SchemaTypeArray \<Rightarrow> jsval \<Rightarrow> jsval \<Rightarrow> heap \<Rightarrow> jsval \<times> heap" where
  "SchemaType_cast this v data h = (if v = Undefined then sa_default this h else (v, h))"

text \<open>
  Modelled from the spec: \<^verbatim>\<open>SchemaType.prototype.validate\<close> of \<^verbatim>\<open>../schematype\<close>,
  which is not among the source files. It fails when the value is absent or
  \<^verbatim>\<open>null\<close> and \<^verbatim>\<open>required\<close> is set; otherwise a configured custom validator decides,
  and may fail or return a replacement. The spec asks for a message that names the
  offender and leaves its words open.
\<close>

definition SchemaType_validate :: "SchemaTypeArray \<Rightarrow> jsval \<Rightarrow> jsval \<Rightarrow> error + jsval" where
  "SchemaType_validate this v data =
     (if sa_required this \<and> nullish v
      then Inl (ValidationError (''`'' @ sa_name this @ ''` is required!''))
      else case sa_validator this of None \<Rightarrow> Inr v | Some f \<Rightarrow> f v data)"

section \<open>The methods of the Array type\<close>

subsection \<open>cast\<close>

function cast_loop :: "contract \<Rightarrow> jsval \<Rightarrow> addr \<Rightarrow> nat \<Rightarrow> nat \<Rightarrow> heap \<Rightarrow> heap" where
  "cast_loop child data a i len h =
     (if i < len
      then cast_loop child data a (Suc i) len
             (set_index h a i (c_cast child (get_index h (Ref a) i) data))
      else h)"
  by pat_completeness auto
termination
  by (relation "measure (\<lambda>(child, data, a, i, len, h). len - i)") auto

definition cast :: "SchemaTypeArray \<Rightarrow> jsval \<Rightarrow> jsval \<Rightarrow> heap \<Rightarrow> jsval \<times> heap" where
  "cast this value_in data h0 =
     (let (v, h1) = SchemaType_cast this value_in data h0 in
      if nullish v then (v, h1)
      else
        (let (a, h2) = (case array_at h1 v of
                          None \<Rightarrow> alloc h1 (ArrayCell [v])
                        | Some (a, xs) \<Rightarrow> (a, h1))
         in case get_length h2 (Ref a) of
              None \<Rightarrow> (Ref a, h2)
            | Some len \<Rightarrow>
                if len = 0 then (Ref a, h2)
                else (Ref a, cast_loop (sa_child this) data a 0 len h2)))"

subsection \<open>validate\<close>

function validate_loop ::
  "contract \<Rightarrow> jsval \<Rightarrow> addr \<Rightarrow> nat \<Rightarrow> nat \<Rightarrow> heap \<Rightarrow> error option \<times> heap" where
  "validate_loop child data a i len h =
     (if i < len
      then (case c_validate child (get_index h (Ref a) i) data of
              Inl e \<Rightarrow> (Some e, h)
            | Inr v \<Rightarrow> validate_loop child data a (Suc i) len (set_index h a i v))
      else (None, h))"
  by pat_completeness auto
termination
  by (relation "measure (\<lambda>(child, data, a, i, len, h). len - i)") auto

definition validate ::
  "SchemaTypeArray \<Rightarrow> jsval \<Rightarrow> jsval \<Rightarrow> heap \<Rightarrow> (error + jsval) \<times> heap" where
  "validate this value_in data h =
     (case SchemaType_validate this value_in data of
        Inl e \<Rightarrow> (Inl e, h)
      | Inr v \<Rightarrow>
          (case array_at h v of
             None \<Rightarrow> (Inl (ValidationError (''`'' @ to_string v @ ''` is not an array!'')), h)
           | Some (a, xs) \<Rightarrow>
               if length xs = 0 then (Inr v, h)
               else (case validate_loop (sa_child this) data a 0 (length xs) h of
                       (Some e, h') \<Rightarrow> (Inl e, h')
                     | (None, h') \<Rightarrow> (Inr v, h'))))"

subsection \<open>compare\<close>

text \<open>The loop returns the first result that is not zero, \<open>None\<close> when it runs out.\<close>

function compare_loop ::
  "contract \<Rightarrow> heap \<Rightarrow> jsval \<Rightarrow> jsval \<Rightarrow> nat \<Rightarrow> nat \<Rightarrow> int option" where
  "compare_loop child h a b i len =
     (if i < len
      then (let result = c_compare child (get_index h a i) (get_index h b i)
            in if result \<noteq> 0 then Some result
               else compare_loop child h a b (Suc i) len)
      else None)"
  by pat_completeness auto
termination
  by (relation "measure (\<lambda>(child, h, a, b, i, len). len - i)") auto

text \<open>
  The result is a number; \<open>None\<close> stands for \<^verbatim>\<open>NaN\<close>, which is what
  \<^verbatim>\<open>lenA - lenB\<close> is when a truthy argument has no \<^verbatim>\<open>length\<close> (the loop is then
  skipped, its bound being \<^verbatim>\<open>NaN\<close> as well).
\<close>

definition compare :: "SchemaTypeArray \<Rightarrow> heap \<Rightarrow> jsval \<Rightarrow> jsval \<Rightarrow> int option" where
  "compare this h a b =
     (if \<not> truthy a then Some (if truthy b then - 1 else 0)
      else if \<not> truthy b then Some 1
      else (case (get_length h a, get_length h b) of
              (Some lenA, Some lenB) \<Rightarrow>
                (case compare_loop (sa_child this) h a b 0 (min lenA lenB) of
                   Some result \<Rightarrow> Some result
                 | None \<Rightarrow> Some (int lenA - int lenB))
            | _ \<Rightarrow> None))"

subsection \<open>parse and value\<close>

function parse_loop ::
  "contract \<Rightarrow> jsval \<Rightarrow> jsval \<Rightarrow> addr \<Rightarrow> nat \<Rightarrow> nat \<Rightarrow> heap \<Rightarrow> heap" where
  "parse_loop child data v result i len h =
     (if i < len
      then parse_loop child data v result (Suc i) len
             (set_index h result i (c_parse child (get_index h v i) data))
      else h)"
  by pat_completeness auto
termination
  by (relation "measure (\<lambda>(child, data, v, result, i, len, h). len - i)") auto

definition parse :: "SchemaTypeArray \<Rightarrow> jsval \<Rightarrow> jsval \<Rightarrow> heap \<Rightarrow> jsval \<times> heap" where
  "parse this v data h =
     (if \<not> truthy v then (v, h)
      else (case get_length h v of
              None \<Rightarrow> (let (r, h') = alloc h (ArrayCell []) in (Ref r, h'))
            | Some len \<Rightarrow>
                if len = 0 then (let (r, h') = alloc h (ArrayCell []) in (Ref r, h'))
                else (let (result, h1) = alloc h (ArrayCell (replicate len Undefined))
                      in (Ref result, parse_loop (sa_child this) data v result 0 len h1))))"

function value_loop ::
  "contract \<Rightarrow> jsval \<Rightarrow> jsval \<Rightarrow> addr \<Rightarrow> nat \<Rightarrow> nat \<Rightarrow> heap \<Rightarrow> heap" where
  "value_loop child data v result i len h =
     (if i < len
      then value_loop child data v result (Suc i) len
             (set_index h result i (c_value child (get_index h v i) data))
      else h)"
  by pat_completeness auto
termination
  by (relation "measure (\<lambda>(child, data, v, result, i, len, h). len - i)") auto

text \<open>The method \<^verbatim>\<open>value\<close> of the source.\<close>

definition value_method :: "SchemaTypeArray \<Rightarrow> jsval \<Rightarrow> jsval \<Rightarrow> heap \<Rightarrow> jsval \<times> heap" where
  "value_method this v data h =
     (if \<not> truthy v then (v, h)
      else (case get_length h v of
              None \<Rightarrow> (let (r, h') = alloc h (ArrayCell []) in (Ref r, h'))
            | Some len \<Rightarrow>
                if len = 0 then (let (r, h') = alloc h (ArrayCell []) in (Ref r, h'))
                else (let (result, h1) = alloc h (ArrayCell (replicate len Undefined))
                      in (Ref result, value_loop (sa_child this) data v result 0 len h1))))"

subsection \<open>match\<close>

function match_loop ::
  "contract \<Rightarrow> heap \<Rightarrow> jsval \<Rightarrow> jsval \<Rightarrow> jsval \<Rightarrow> nat \<Rightarrow> nat \<Rightarrow> bool" where
  "match_loop child h v query data i lenA =
     (if i < lenA
      then (if \<not> c_match child (get_index h v i) (get_index h query i) data then False
            else match_loop child h v query data (Suc i) lenA)
      else True)"
  by pat_completeness auto
termination
  by (relation "measure (\<lambda>(child, h, v, query, data, i, lenA). lenA - i)") auto

text \<open>
  Two lengths that are both \<^verbatim>\<open>undefined\<close> pass the test \<^verbatim>\<open>lenA !== lenB\<close>, and the
  loop, bounded by \<^verbatim>\<open>undefined\<close>, is skipped.
\<close>

definition match :: "SchemaTypeArray \<Rightarrow> heap \<Rightarrow> jsval \<Rightarrow> jsval \<Rightarrow> jsval \<Rightarrow> bool" where
  "match this h v query data =
     (if \<not> truthy v \<or> \<not> truthy query then v = query
      else (let lenA = get_length h v; lenB = get_length h query
            in if lenA \<noteq> lenB then False
               else (case lenA of
                       None \<Rightarrow> True
                     | Some n \<Rightarrow> match_loop (sa_child this) h v query data 0 n)))"

section \<open>Query operators\<close>

text \<open>
  \<^verbatim>\<open>query.length\<close> in the head of a loop: reading a property of \<^verbatim>\<open>null\<close> or
  \<^verbatim>\<open>undefined\<close> throws (the wording of the message is the engine's).
\<close>

definition read_length :: "heap \<Rightarrow> jsval \<Rightarrow> error + nat option" where
  "read_length h v =
     (if nullish v
      then Inl (TypeError (''Cannot read properties of '' @ to_string v @ '' (reading length)''))
      else Inr (get_length h v))"

definition q_size :: "heap \<Rightarrow> jsval \<Rightarrow> jsval \<Rightarrow> jsval \<Rightarrow> bool" where
  "q_size h v query data =
     (if truthy v
      then (case get_length h v of Some n \<Rightarrow> query = Num (int n) | None \<Rightarrow> query = Undefined)
      else query = Num 0)"

definition q_length :: "heap \<Rightarrow> jsval \<Rightarrow> jsval \<Rightarrow> jsval \<Rightarrow> bool" where
  "q_length = q_size"

function q_in_loop :: "heap \<Rightarrow> jsval \<Rightarrow> jsval \<Rightarrow> nat \<Rightarrow> nat \<Rightarrow> (error + bool) option" where
  "q_in_loop h v query i len =
     (if i < len
      then (case js_includes h v (get_index h query i) of
              None \<Rightarrow> None
            | Some (Inl e) \<Rightarrow> Some (Inl e)
            | Some (Inr found) \<Rightarrow>
                if found then Some (Inr True) else q_in_loop h v query (Suc i) len)
      else Some (Inr False))"
  by pat_completeness auto
termination
  by (relation "measure (\<lambda>(h, v, query, i, len). len - i)") auto

text \<open>A bound \<^verbatim>\<open>len\<close> that is \<^verbatim>\<open>undefined\<close> skips the loop.\<close>

definition q_in :: "heap \<Rightarrow> jsval \<Rightarrow> jsval \<Rightarrow> jsval \<Rightarrow> (error + bool) option" where
  "q_in h v query data =
     (if \<not> truthy v then Some (Inr False)
      else (case read_length h query of
              Inl e \<Rightarrow> Some (Inl e)
            | Inr None \<Rightarrow> Some (Inr False)
            | Inr (Some len) \<Rightarrow> q_in_loop h v query 0 len))"

function q_nin_loop :: "heap \<Rightarrow> jsval \<Rightarrow> jsval \<Rightarrow> nat \<Rightarrow> nat \<Rightarrow> (error + bool) option" where
  "q_nin_loop h v query i len =
     (if i < len
      then (case js_includes h v (get_index h query i) of
              None \<Rightarrow> None
            | Some (Inl e) \<Rightarrow> Some (Inl e)
            | Some (Inr found) \<Rightarrow>
                if found then Some (Inr False) else q_nin_loop h v query (Suc i) len)
      else Some (Inr True))"
  by pat_completeness auto
termination
  by (relation "measure (\<lambda>(h, v, query, i, len). len - i)") auto

definition q_nin :: "heap \<Rightarrow> jsval \<Rightarrow> jsval \<Rightarrow> jsval \<Rightarrow> (error + bool) option" where
  "q_nin h v query data =
     (if \<not> truthy v then Some (Inr True)
      else (case read_length h query of
              Inl e \<Rightarrow> Some (Inl e)
            | Inr None \<Rightarrow> Some (Inr True)
            | Inr (Some len) \<Rightarrow> q_nin_loop h v query 0 len))"

function q_all_loop :: "heap \<Rightarrow> jsval \<Rightarrow> jsval \<Rightarrow> nat \<Rightarrow> nat \<Rightarrow> (error + bool) option" where
  "q_all_loop h v query i len =
     (if i < len
      then (case js_includes h v (get_index h query i) of
              None \<Rightarrow> None
            | Some (Inl e) \<Rightarrow> Some (Inl e)
            | Some (Inr found) \<Rightarrow>
                if \<not> found then Some (Inr False) else q_all_loop h v query (Suc i) len)
      else Some (Inr True))"
  by pat_completeness auto
termination
  by (relation "measure (\<lambda>(h, v, query, i, len). len - i)") auto

definition q_all :: "heap \<Rightarrow> jsval \<Rightarrow> jsval \<Rightarrow> jsval \<Rightarrow> (error + bool) option" where
  "q_all h v query data =
     (if \<not> truthy v then Some (Inr False)
      else (case read_length h query of
              Inl e \<Rightarrow> Some (Inl e)
            | Inr None \<Rightarrow> Some (Inr True)
            | Inr (Some len) \<Rightarrow> q_all_loop h v query 0 len))"

section \<open>Update operators\<close>

text \<open>
  The count of \<^verbatim>\<open>u$shift\<close> and \<^verbatim>\<open>u$pop\<close> is a number or a boolean. A truthy string
  or an object in its place would be converted to a number by \<^verbatim>\<open>update > 0\<close>, which
  is not modelled (\<open>None\<close>). A truthy boolean is \<^verbatim>\<open>true\<close>.
\<close>

definition u_shift :: "heap \<Rightarrow> jsval \<Rightarrow> jsval \<Rightarrow> jsval \<Rightarrow> (error + jsval \<times> heap) option" where
  "u_shift h v update data =
     (if \<not> truthy v \<or> \<not> truthy update then Some (Inr (v, h))
      else (case update of
              Bool b \<Rightarrow> Some (js_slice h v 1 None)
            | Num n \<Rightarrow>
                if n > 0 then Some (js_slice h v n None)
                else (case get_length h v of
                        Some len \<Rightarrow> Some (js_slice h v 0 (Some (int len + n)))
                      | None \<Rightarrow> Some (Inl (TypeError ''value.slice is not a function'')))
            | _ \<Rightarrow> None))"

text \<open>
  In \<^verbatim>\<open>u$pop\<close> a truthy value without a \<^verbatim>\<open>length\<close> is a number, \<^verbatim>\<open>true\<close> or an
  object that is not an array: it has no \<^verbatim>\<open>slice\<close> either, and the call throws.
\<close>

definition u_pop :: "heap \<Rightarrow> jsval \<Rightarrow> jsval \<Rightarrow> jsval \<Rightarrow> (error + jsval \<times> heap) option" where
  "u_pop h v update data =
     (if \<not> truthy v \<or> \<not> truthy update then Some (Inr (v, h))
      else (case get_length h v of
              None \<Rightarrow>
                (case update of
                   Bool b \<Rightarrow> Some (Inl (TypeError ''value.slice is not a function''))
                 | Num n \<Rightarrow> Some (Inl (TypeError ''value.slice is not a function''))
                 | _ \<Rightarrow> None)
            | Some len \<Rightarrow>
                (case update of
                   Bool b \<Rightarrow> Some (js_slice h v 0 (Some (int len - 1)))
                 | Num n \<Rightarrow>
                     if n > 0 then Some (js_slice h v 0 (Some (int len - n)))
                     else Some (js_slice h v (- n) (Some (int len)))
                 | _ \<Rightarrow> None)))"

text \<open>\<^verbatim>\<open>value.push(item)\<close> by receiver: only an array has \<^verbatim>\<open>push\<close>.\<close>

definition js_push :: "heap \<Rightarrow> jsval \<Rightarrow> jsval \<Rightarrow> error + heap" where
  "js_push h v item =
     (case array_at h v of
        Some (a, xs) \<Rightarrow> Inr (push h a item)
      | None \<Rightarrow> Inl (TypeError ''value.push is not a function''))"

function addToSet_loop ::
  "heap \<Rightarrow> jsval \<Rightarrow> jsval \<Rightarrow> nat \<Rightarrow> nat \<Rightarrow> (error + heap) option" where
  "addToSet_loop h v update i len =
     (if i < len
      then (let item = get_index h update i
            in case js_includes h v item of
                 None \<Rightarrow> None
               | Some (Inl e) \<Rightarrow> Some (Inl e)
               | Some (Inr found) \<Rightarrow>
                   if \<not> found
                   then (case js_push h v item of
                           Inl e \<Rightarrow> Some (Inl e)
                         | Inr h' \<Rightarrow> addToSet_loop h' v update (Suc i) len)
                   else addToSet_loop h v update (Suc i) len)
      else Some (Inr h))"
  by pat_completeness auto
termination
  by (relation "measure (\<lambda>(h, v, update, i, len). len - i)") auto

definition u_addToSet ::
  "heap \<Rightarrow> jsval \<Rightarrow> jsval \<Rightarrow> jsval \<Rightarrow> (error + jsval \<times> heap) option" where
  "u_addToSet h v update data =
     (case array_at h update of
        Some (b, us) \<Rightarrow>
          if \<not> truthy v then Some (Inr (update, h))
          else (case addToSet_loop h v update 0 (length us) of
                  None \<Rightarrow> None
                | Some (Inl e) \<Rightarrow> Some (Inl e)
                | Some (Inr h') \<Rightarrow> Some (Inr (v, h')))
      | None \<Rightarrow>
          if \<not> truthy v
          then (let (r, h') = alloc h (ArrayCell [update]) in Some (Inr (Ref r, h')))
          else (case js_includes h v update of
                  None \<Rightarrow> None
                | Some (Inl e) \<Rightarrow> Some (Inl e)
                | Some (Inr found) \<Rightarrow>
                    if \<not> found
                    then (case js_push h v update of
                            Inl e \<Rightarrow> Some (Inl e)
                          | Inr h' \<Rightarrow> Some (Inr (v, h')))
                    else Some (Inr (v, h))))"

section \<open>Hook registration of the schema\<close>

text \<open>
  The four hook lists of a schema: \<^verbatim>\<open>hooks.pre.save\<close>, \<^verbatim>\<open>hooks.pre.remove\<close>,
  \<^verbatim>\<open>hooks.post.save\<close> and \<^verbatim>\<open>hooks.post.remove\<close>, each in registration order.
\<close>

record 'f hooks =
  pre_save :: "'f list"
  pre_remove :: "'f list"
  post_save :: "'f list"
  post_remove :: "'f list"

text \<open>
  What a caller passes as the hook: a function, or some other value (\<^verbatim>\<open>undefined\<close>
  when the argument is left out).
\<close>

datatype 'f argument = Callable 'f | Other jsval

definition new_hooks :: "'f hooks" where
  "new_hooks = \<lparr>pre_save = [], pre_remove = [], post_save = [], post_remove = []\<rparr>"

text \<open>
  Modelled from the spec: \<^verbatim>\<open>Schema.prototype.pre\<close>, whose source is not among the
  files (its test is). It appends the function to the list of the event; it fails with
  a TypeError when the event is not exactly \<^verbatim>\<open>save\<close> or \<^verbatim>\<open>remove\<close>, and when the
  hook is not callable. The messages are those the test expects.
\<close>

definition pre :: "'f hooks \<Rightarrow> jsval \<Rightarrow> 'f argument \<Rightarrow> error + 'f hooks" where
  "pre hs eventType fn =
     (if eventType \<noteq> Str ''save'' \<and> eventType \<noteq> Str ''remove''
      then Inl (TypeError ''Hook type must be `save` or `remove`!'')
      else (case fn of
              Other v \<Rightarrow> Inl (TypeError ''Hook must be a function!'')
            | Callable f \<Rightarrow>
                Inr (if eventType = Str ''save''
                     then hs\<lparr>pre_save := pre_save hs @ [f]\<rparr>
                     else hs\<lparr>pre_remove := pre_remove hs @ [f]\<rparr>)))"

text \<open>
  Modelled from the spec: \<^verbatim>\<open>Schema.prototype.post\<close>, whose source is not among the
  files (its test is); as \<open>pre\<close>, on the lists of the \<^verbatim>\<open>post\<close> hooks.
\<close>

definition post :: "'f hooks \<Rightarrow> jsval \<Rightarrow> 'f argument \<Rightarrow> error + 'f hooks" where
  "post hs eventType fn =
     (if eventType \<noteq> Str ''save'' \<and> eventType \<noteq> Str ''remove''
      then Inl (TypeError ''Hook type must be `save` or `remove`!'')
      else (case fn of
              Other v \<Rightarrow> Inl (TypeError ''Hook must be a function!'')
            | Callable f \<Rightarrow>
                Inr (if eventType = Str ''save''
                     then hs\<lparr>post_save := post_save hs @ [f]\<rparr>
                     else hs\<lparr>post_remove := post_remove hs @ [f]\<rparr>)))"

section \<open>Sample types\<close>

text \<open>
  Modelled from the spec: the contract of a path without options (section 4.1), which
  is the child of an array declared as \<^verbatim>\<open>[]\<close>; its source, \<^verbatim>\<open>../schematype\<close>,
  is not among the files. \<^verbatim>\<open>cast\<close>, \<^verbatim>\<open>validate\<close>, \<^verbatim>\<open>parse\<close> and \<^verbatim>\<open>value\<close> return
  their argument, \<^verbatim>\<open>match\<close> is equality, \<^verbatim>\<open>compare\<close> puts \<^verbatim>\<open>null\<close> and absent
  values before present ones and orders numbers by size. The examples below use it.
\<close>

definition SchemaType_compare :: "jsval \<Rightarrow> jsval \<Rightarrow> int" where
  "SchemaType_compare a b =
     (if nullish a then (if nullish b then 0 else - 1)
      else if nullish b then 1
      else (case (a, b) of
              (Num x, Num y) \<Rightarrow> (if x > y then 1 else if x < y then - 1 else 0)
            | _ \<Rightarrow> 0))"

definition mixed :: contract where
  "mixed =
     \<lparr>c_cast = (\<lambda>v data. v),
      c_validate = (\<lambda>v data. Inr v),
      c_compare = SchemaType_compare,
      c_parse = (\<lambda>v data. v),
      c_value = (\<lambda>v data. v),
      c_match = (\<lambda>v query data. v = query)\<rparr>"

text \<open>
  A child with a custom validator, which section 4.1 allows to fail or to return a
  replacement: a percentage, where a number above 100 is replaced by 100 and anything
  but a number is rejected.
\<close>

definition percent :: contract where
  "percent =
     mixed\<lparr>c_validate :=
       (\<lambda>v data. case v of
                    Num n \<Rightarrow> Inr (Num (min n 100))
                  | _ \<Rightarrow> Inl (ValidationError (''`'' @ to_string v @ ''` is not a number!'')))\<rparr>"

text \<open>
  An Array path as the constructor sets it up when no option is given: not required,
  the default a new empty array, the child as given.
\<close>

definition array_of :: "contract \<Rightarrow> SchemaTypeArray" where
  "array_of child =
     \<lparr>sa_name = ''arr'',
      sa_required = False,
      sa_default = (\<lambda>h. let (r, h') = alloc h (ArrayCell []) in (Ref r, h')),
      sa_validator = None,
      sa_child = child\<rparr>"

section \<open>The loops, read off the list of elements\<close>

text \<open>
  What the loop of \<open>validate\<close> does to the elements: it replaces each by the child's
  result and stops at the first element the child rejects, which stays, as do the
  elements after it.
\<close>

fun validate_list ::
  "(jsval \<Rightarrow> error + jsval) \<Rightarrow> jsval list \<Rightarrow> error option \<times> jsval list" where
  "validate_list f [] = (None, [])"
| "validate_list f (x # xs) =
     (case f x of
        Inl e \<Rightarrow> (Some e, x # xs)
      | Inr y \<Rightarrow> (case validate_list f xs of (r, ys) \<Rightarrow> (r, y # ys)))"

text \<open>
  What \<^verbatim>\<open>u$addToSet\<close> appends when its operand is an array: the members of \<open>us\<close>
  that are not in \<open>xs\<close>, each once, in the order of their first occurrence.
\<close>

definition missing_members :: "jsval list \<Rightarrow> jsval list \<Rightarrow> jsval list" where
  "missing_members xs us = rev (remdups (rev (filter (\<lambda>u. u \<notin> set xs) us)))"

section \<open>Facts about the store\<close>

declare cast_loop.simps [simp del] validate_loop.simps [simp del] compare_loop.simps [simp del]
  parse_loop.simps [simp del] value_loop.simps [simp del] match_loop.simps [simp del]
  q_in_loop.simps [simp del] q_nin_loop.simps [simp del] q_all_loop.simps [simp del]
  addToSet_loop.simps [simp del]

lemma js_includes_array:
  "array_at h v = Some (a, xs) \<Longrightarrow> js_includes h v x = Some (Inr (x \<in> set xs))"
  by (auto simp: array_at_def js_includes_def split: jsval.splits cell.splits)

lemma read_length_array:
  "array_at h q = Some (b, ys) \<Longrightarrow> read_length h q = Inr (Some (length ys))"
  by (auto simp: array_at_def read_length_def nullish_def get_length_def
      split: jsval.splits cell.splits)

lemma array_atD:
  assumes "array_at h v = Some (a, xs)"
  shows "v = Ref a" and "a < length h" and "h ! a = ArrayCell xs"
  using assms
  by (auto simp: array_at_def cell_at_def split: jsval.splits cell.splits if_splits)

lemma array_at_facts:
  assumes "array_at h v = Some (a, xs)"
  shows "truthy v" and "get_length h v = Some (length xs)"
    and "j < length xs \<Longrightarrow> get_index h v j = xs ! j"
  using array_atD [OF assms]
  by (simp_all add: get_length_def get_index_def cell_at_def)

lemma not_isArray: "(\<not> isArray h v) = (array_at h v = None)"
  unfolding isArray_def by blast

lemma array_atI: "a < length h \<Longrightarrow> h ! a = ArrayCell xs \<Longrightarrow> array_at h (Ref a) = Some (a, xs)"
  by (simp add: array_at_def cell_at_def)

lemma cell_at_update:
  "cell_at (h[r := c]) a = (if a = r \<and> r < length h then c else cell_at h a)"
  by (simp add: cell_at_def)

lemma update_same: "h ! r = c \<Longrightarrow> h[r := c] = h"
  by (erule subst) (rule list_update_id)

lemma get_index_update:
  "v \<noteq> Ref r \<Longrightarrow> get_index (h[r := c]) v j = get_index h v j"
  by (cases v) (simp_all add: get_index_def cell_at_update)

lemma set_index_array:
  "cell_at h r = ArrayCell ys \<Longrightarrow> i < length ys \<Longrightarrow>
   set_index h r i y = h[r := ArrayCell (ys[i := y])]"
  by (simp add: set_index_def)

lemma take_Suc_update: "i < length ys \<Longrightarrow> take (Suc i) (ys[i := y]) = take i ys @ [y]"
  by (simp add: take_Suc_conv_app_nth)

section \<open>The query operators \<^verbatim>\<open>q$in\<close>, \<^verbatim>\<open>q$nin\<close>, \<^verbatim>\<open>q$all\<close>, \<^verbatim>\<open>q$size\<close>\<close>

lemma q_nin_loop_negates:
  "q_nin_loop h v query i len = map_option (map_sum id Not) (q_in_loop h v query i len)"
proof (induction h v query i len rule: q_in_loop.induct)
  case (1 h v query i len)
  show ?case
  proof (cases "i < len")
    case False
    then show ?thesis
      by (simp add: q_in_loop.simps [of h v query i len] q_nin_loop.simps [of h v query i len])
  next
    case True
    show ?thesis
    proof (cases "js_includes h v (get_index h query i)")
      case None
      with True show ?thesis
        by (simp add: q_in_loop.simps [of h v query i len] q_nin_loop.simps [of h v query i len])
    next
      case (Some r)
      show ?thesis
      proof (cases r)
        case (Inl e)
        with True Some show ?thesis
          by (simp add: q_in_loop.simps [of h v query i len]
              q_nin_loop.simps [of h v query i len])
      next
        case (Inr found)
        with True Some "1.IH" [of "Inr found" found] show ?thesis
          by (simp add: q_in_loop.simps [of h v query i len]
              q_nin_loop.simps [of h v query i len])
      qed
    qed
  qed
qed

lemma q_in_loop_array:
  "array_at h v = Some (a, xs) \<Longrightarrow> \<exists>b. q_in_loop h v query i len = Some (Inr b)"
proof (induction h v query i len rule: q_in_loop.induct)
  case (1 h v query i len)
  show ?case
  proof (cases "i < len")
    case False
    then show ?thesis by (auto simp: q_in_loop.simps [of h v query i len])
  next
    case True
    note inc = js_includes_array [OF "1.prems", of "get_index h query i"]
    show ?thesis
    proof (cases "get_index h query i \<in> set xs")
      case True
      with \<open>i < len\<close> inc show ?thesis by (auto simp: q_in_loop.simps [of h v query i len])
    next
      case False
      with \<open>i < len\<close> inc "1.IH" [of "Inr False" False] "1.prems" show ?thesis
        by (simp add: q_in_loop.simps [of h v query i len])
    qed
  qed
qed

text \<open>
  Claim C10. For every value and every query, \<^verbatim>\<open>q$nin\<close> is the negation of \<^verbatim>\<open>q$in\<close>:
  the two throw alike and otherwise return opposite booleans; on an array or a falsy
  value and a query array both do return a boolean. \<^verbatim>\<open>q$length\<close> is the function
  \<^verbatim>\<open>q$size\<close>. A falsy value makes \<^verbatim>\<open>q$in\<close> and \<^verbatim>\<open>q$all\<close> return false and
  \<^verbatim>\<open>q$nin\<close> return true whatever the query is; so \<^verbatim>\<open>q$all(null, [])\<close> is false.
\<close>

theorem q_nin_is_not_q_in:
  "q_nin h v query data = map_option (map_sum id Not) (q_in h v query data)
   \<and> ((isArray h v \<or> \<not> truthy v) \<and> isArray h query \<longrightarrow>
        (\<exists>b. q_in h v query data = Some (Inr b) \<and> q_nin h v query data = Some (Inr (\<not> b))))
   \<and> q_length = q_size
   \<and> (\<not> truthy v \<longrightarrow>
        q_in h v query data = Some (Inr False) \<and> q_all h v query data = Some (Inr False)
        \<and> q_nin h v query data = Some (Inr True))
   \<and> (array_at h query = Some (b, []) \<longrightarrow> q_all h Null query data = Some (Inr False))"
proof -
  have neg: "q_nin h v query data = map_option (map_sum id Not) (q_in h v query data)"
    by (simp add: q_nin_def q_in_def q_nin_loop_negates split: sum.splits option.splits)
  have tot: "\<exists>b. q_in h v query data = Some (Inr b)"
    if "isArray h v \<or> \<not> truthy v" and "isArray h query"
  proof (cases "truthy v")
    case False
    then show ?thesis by (auto simp: q_in_def)
  next
    case True
    with that obtain a xs where v: "array_at h v = Some (a, xs)"
      by (auto simp: isArray_def)
    from that obtain c ys where q: "array_at h query = Some (c, ys)"
      by (auto simp: isArray_def)
    from True q_in_loop_array [OF v] read_length_array [OF q] show ?thesis
      by (simp add: q_in_def)
  qed
  have falsy: "q_in h v query data = Some (Inr False) \<and> q_all h v query data = Some (Inr False)
        \<and> q_nin h v query data = Some (Inr True)" if "\<not> truthy v"
    using that by (simp add: q_in_def q_all_def q_nin_def)
  have "q_all h Null query data = Some (Inr False)"
    by (simp add: q_all_def)
  with neg tot falsy show ?thesis
    by (auto simp: q_length_def)
qed

theorem q_nin_is_not_q_in_witness:
  "q_in [ArrayCell [Str ''a'', Str ''b''], ArrayCell [Str ''b'', Str ''c'']]
       (Ref 0) (Ref 1) Undefined = Some (Inr True)
   \<and> q_nin [ArrayCell [Str ''a'', Str ''b''], ArrayCell [Str ''b'', Str ''c'']]
       (Ref 0) (Ref 1) Undefined = Some (Inr False)
   \<and> q_all [ArrayCell []] Null (Ref 0) Undefined = Some (Inr False)"
proof -
  let ?h = "[ArrayCell [Str ''a'', Str ''b''], ArrayCell [Str ''b'', Str ''c'']]"
  have a: "isArray ?h (Ref 0)" "isArray ?h (Ref 1)"
    by (simp_all add: isArray_def array_at_def cell_at_def)
  have i: "q_in ?h (Ref 0) (Ref 1) Undefined = Some (Inr True)"
    by code_simp
  have e: "array_at [ArrayCell []] (Ref 0) = Some (0, [])"
    by (simp add: array_at_def cell_at_def)
  from q_nin_is_not_q_in [of ?h "Ref 0" "Ref 1" Undefined] a i
       q_nin_is_not_q_in [of "[ArrayCell []]" Null "Ref 0" Undefined 0] e
  show ?thesis by simp
qed

section \<open>\<^verbatim>\<open>parse\<close> and \<^verbatim>\<open>value\<close>\<close>

lemma parse_loop_fills:
  "cell_at h r = ArrayCell ys \<Longrightarrow> r < length h \<Longrightarrow> length ys = len \<Longrightarrow> i \<le> len \<Longrightarrow>
   v \<noteq> Ref r \<Longrightarrow>
   parse_loop child data v r i len h =
     h[r := ArrayCell (take i ys @ map (\<lambda>j. c_parse child (get_index h v j) data) [i..<len])]"
proof (induction child data v r i len h arbitrary: ys rule: parse_loop.induct)
  case (1 child data v r i len h)
  show ?case
  proof (cases "i < len")
    case False
    then have "parse_loop child data v r i len h = h"
      by (simp add: parse_loop.simps [of child data v r i len h])
    moreover from False "1.prems" have "i = len" by simp
    ultimately show ?thesis
      using "1.prems" by (simp add: cell_at_def update_same)
  next
    case True
    let ?y = "c_parse child (get_index h v i) data"
    let ?h = "h[r := ArrayCell (ys[i := ?y])]"
    from True "1.prems" have s: "set_index h r i ?y = ?h"
      by (simp add: set_index_array)
    have c: "cell_at ?h r = ArrayCell (ys[i := ?y])"
      using "1.prems" by (simp add: cell_at_update)
    have "parse_loop child data v r (Suc i) len ?h =
      ?h[r := ArrayCell (take (Suc i) (ys[i := ?y]) @
        map (\<lambda>j. c_parse child (get_index ?h v j) data) [Suc i..<len])]"
      using "1.IH" [OF True, of "ys[i := ?y]"] True "1.prems" c s by simp
    with True "1.prems" s show ?thesis
      by (simp add: parse_loop.simps [of child data v r i len h] get_index_update
          take_Suc_update upt_conv_Cons)
  qed
qed

lemma value_loop_fills:
  "cell_at h r = ArrayCell ys \<Longrightarrow> r < length h \<Longrightarrow> length ys = len \<Longrightarrow> i \<le> len \<Longrightarrow>
   v \<noteq> Ref r \<Longrightarrow>
   value_loop child data v r i len h =
     h[r := ArrayCell (take i ys @ map (\<lambda>j. c_value child (get_index h v j) data) [i..<len])]"
proof (induction child data v r i len h arbitrary: ys rule: value_loop.induct)
  case (1 child data v r i len h)
  show ?case
  proof (cases "i < len")
    case False
    then have "value_loop child data v r i len h = h"
      by (simp add: value_loop.simps [of child data v r i len h])
    moreover from False "1.prems" have "i = len" by simp
    ultimately show ?thesis
      using "1.prems" by (simp add: cell_at_def update_same)
  next
    case True
    let ?y = "c_value child (get_index h v i) data"
    let ?h = "h[r := ArrayCell (ys[i := ?y])]"
    from True "1.prems" have s: "set_index h r i ?y = ?h"
      by (simp add: set_index_array)
    have c: "cell_at ?h r = ArrayCell (ys[i := ?y])"
      using "1.prems" by (simp add: cell_at_update)
    have "value_loop child data v r (Suc i) len ?h =
      ?h[r := ArrayCell (take (Suc i) (ys[i := ?y]) @
        map (\<lambda>j. c_value child (get_index ?h v j) data) [Suc i..<len])]"
      using "1.IH" [OF True, of "ys[i := ?y]"] True "1.prems" c s by simp
    with True "1.prems" s show ?thesis
      by (simp add: value_loop.simps [of child data v r i len h] get_index_update
          take_Suc_update upt_conv_Cons)
  qed
qed

lemma parse_array:
  assumes "array_at h v = Some (a, xs)"
  shows "parse this v data h =
    (Ref (length h), h @ [ArrayCell (map (\<lambda>x. c_parse (sa_child this) x data) xs)])"
proof -
  from assms have v: "v = Ref a" "a < length h" "h ! a = ArrayCell xs"
    by (rule array_atD)+
  then have len: "get_length h v = Some (length xs)" and t: "truthy v"
    by (simp_all add: get_length_def cell_at_def)
  show ?thesis
  proof (cases "xs = []")
    case True
    with len t show ?thesis by (simp add: parse_def alloc_def)
  next
    case False
    let ?h1 = "h @ [ArrayCell (replicate (length xs) Undefined)]"
    let ?f = "\<lambda>x. c_parse (sa_child this) x data"
    have g: "get_index ?h1 v j = (if j < length xs then xs ! j else Undefined)" for j
      using v by (simp add: get_index_def cell_at_def nth_append)
    have "parse_loop (sa_child this) data v (length h) 0 (length xs) ?h1 =
      ?h1[length h := ArrayCell (take 0 (replicate (length xs) Undefined) @
        map (\<lambda>j. ?f (get_index ?h1 v j)) [0..<length xs])]"
      using v by (intro parse_loop_fills) (simp_all add: cell_at_def)
    also have "map (\<lambda>j. ?f (get_index ?h1 v j)) [0..<length xs] = map ?f xs"
      by (rule nth_equalityI) (simp_all add: g)
    finally show ?thesis
      using False len t by (simp add: parse_def alloc_def)
  qed
qed

lemma value_array:
  assumes "array_at h v = Some (a, xs)"
  shows "value_method this v data h =
    (Ref (length h), h @ [ArrayCell (map (\<lambda>x. c_value (sa_child this) x data) xs)])"
proof -
  from assms have v: "v = Ref a" "a < length h" "h ! a = ArrayCell xs"
    by (rule array_atD)+
  then have len: "get_length h v = Some (length xs)" and t: "truthy v"
    by (simp_all add: get_length_def cell_at_def)
  show ?thesis
  proof (cases "xs = []")
    case True
    with len t show ?thesis by (simp add: value_method_def alloc_def)
  next
    case False
    let ?h1 = "h @ [ArrayCell (replicate (length xs) Undefined)]"
    let ?f = "\<lambda>x. c_value (sa_child this) x data"
    have g: "get_index ?h1 v j = (if j < length xs then xs ! j else Undefined)" for j
      using v by (simp add: get_index_def cell_at_def nth_append)
    have "value_loop (sa_child this) data v (length h) 0 (length xs) ?h1 =
      ?h1[length h := ArrayCell (take 0 (replicate (length xs) Undefined) @
        map (\<lambda>j. ?f (get_index ?h1 v j)) [0..<length xs])]"
      using v by (intro value_loop_fills) (simp_all add: cell_at_def)
    also have "map (\<lambda>j. ?f (get_index ?h1 v j)) [0..<length xs] = map ?f xs"
      by (rule nth_equalityI) (simp_all add: g)
    finally show ?thesis
      using False len t by (simp add: value_method_def alloc_def)
  qed
qed

text \<open>
  Claim C1, as stated, fails: \<^verbatim>\<open>parse\<close> and \<^verbatim>\<open>value\<close> begin with
  \<^verbatim>\<open>if (!value) return value\<close>, so \<^verbatim>\<open>null\<close> comes back as \<^verbatim>\<open>null\<close> (and
  \<^verbatim>\<open>undefined\<close> as \<^verbatim>\<open>undefined\<close>), not as an empty array.
\<close>

theorem parse_null_is_null:
  "parse (array_of mixed) Null Undefined [] = (Null, [])
   \<and> value_method (array_of mixed) Null Undefined [] = (Null, [])
   \<and> parse (array_of mixed) Undefined Undefined [] = (Undefined, [])
   \<and> \<not> isArray [] Null \<and> \<not> isArray [] Undefined"
  by (simp add: parse_def value_method_def isArray_def array_at_def)

text \<open>
  Claim C1, amended. \<^verbatim>\<open>parse\<close> and \<^verbatim>\<open>value\<close> return a falsy input as it is, so
  \<^verbatim>\<open>null\<close> stays \<^verbatim>\<open>null\<close> and \<^verbatim>\<open>undefined\<close> stays \<^verbatim>\<open>undefined\<close>, and nothing is
  allocated. For an array they return a new array that holds the child's \<^verbatim>\<open>parse\<close>
  (respectively \<^verbatim>\<open>value\<close>) of each element in index order; for the empty array this is
  a new empty array. The input array is not changed.
\<close>

theorem parse_value_elementwise:
  "(\<not> truthy v \<longrightarrow> parse this v data h = (v, h) \<and> value_method this v data h = (v, h))
   \<and> (array_at h v = Some (a, xs) \<longrightarrow>
        parse this v data h =
          (Ref (length h), h @ [ArrayCell (map (\<lambda>x. c_parse (sa_child this) x data) xs)])
        \<and> value_method this v data h =
          (Ref (length h), h @ [ArrayCell (map (\<lambda>x. c_value (sa_child this) x data) xs)]))"
proof (intro conjI impI)
  assume "\<not> truthy v"
  then show "parse this v data h = (v, h)" and "value_method this v data h = (v, h)"
    by (simp_all add: parse_def value_method_def)
next
  assume "array_at h v = Some (a, xs)"
  then show "parse this v data h =
      (Ref (length h), h @ [ArrayCell (map (\<lambda>x. c_parse (sa_child this) x data) xs)])"
    by (rule parse_array)
next
  assume "array_at h v = Some (a, xs)"
  then show "value_method this v data h =
      (Ref (length h), h @ [ArrayCell (map (\<lambda>x. c_value (sa_child this) x data) xs)])"
    by (rule value_array)
qed

theorem parse_value_elementwise_witness:
  "parse (array_of mixed) (Ref 0) Undefined [ArrayCell [Num 1, Str ''a'']]
     = (Ref 1, [ArrayCell [Num 1, Str ''a''], ArrayCell [Num 1, Str ''a'']])
   \<and> value_method (array_of mixed) (Ref 0) Undefined [ArrayCell []]
     = (Ref 1, [ArrayCell [], ArrayCell []])
   \<and> parse (array_of mixed) (Num 0) Undefined [] = (Num 0, [])"
proof -
  have a: "array_at [ArrayCell [Num 1, Str ''a'']] (Ref 0) = Some (0, [Num 1, Str ''a''])"
    "array_at [ArrayCell []] (Ref 0) = Some (0, [])"
    by (simp_all add: array_at_def cell_at_def)
  have t: "\<not> truthy (Num 0)" by simp
  from parse_value_elementwise [of "Ref 0" "array_of mixed" Undefined
         "[ArrayCell [Num 1, Str ''a'']]" 0 "[Num 1, Str ''a'']"]
       parse_value_elementwise [of "Ref 0" "array_of mixed" Undefined "[ArrayCell []]" 0 "[]"]
       parse_value_elementwise [of "Num 0" "array_of mixed" Undefined "[]"] a t
  show ?thesis by (simp add: array_of_def mixed_def)
qed

section \<open>\<^verbatim>\<open>cast\<close>\<close>

lemma cast_loop_maps:
  "cell_at h a = ArrayCell ys \<Longrightarrow> a < length h \<Longrightarrow> length ys = len \<Longrightarrow> i \<le> len \<Longrightarrow>
   cast_loop child data a i len h =
     h[a := ArrayCell (take i ys @ map (\<lambda>x. c_cast child x data) (drop i ys))]"
proof (induction child data a i len h arbitrary: ys rule: cast_loop.induct)
  case (1 child data a i len h)
  show ?case
  proof (cases "i < len")
    case False
    then have "cast_loop child data a i len h = h"
      by (simp add: cast_loop.simps [of child data a i len h])
    moreover from False "1.prems" have "i = len" by simp
    ultimately show ?thesis
      using "1.prems" by (simp add: cell_at_def update_same)
  next
    case True
    let ?y = "c_cast child (ys ! i) data"
    let ?h = "h[a := ArrayCell (ys[i := ?y])]"
    from True "1.prems" have g: "get_index h (Ref a) i = ys ! i"
      by (simp add: get_index_def)
    from True "1.prems" have s: "set_index h a i ?y = ?h"
      by (simp add: set_index_array)
    have c: "cell_at ?h a = ArrayCell (ys[i := ?y])"
      using "1.prems" by (simp add: cell_at_update)
    have "cast_loop child data a (Suc i) len ?h =
      ?h[a := ArrayCell (take (Suc i) (ys[i := ?y]) @
        map (\<lambda>x. c_cast child x data) (drop (Suc i) (ys[i := ?y])))]"
      using "1.IH" [OF True, of "ys[i := ?y]"] True "1.prems" c s g by simp
    moreover from True "1.prems" have "drop i ys = ys ! i # drop (Suc i) ys"
      by (simp add: Cons_nth_drop_Suc)
    ultimately show ?thesis
      using True "1.prems" s g
      by (simp add: cast_loop.simps [of child data a i len h] take_Suc_update)
  qed
qed

lemma cast_array:
  assumes "array_at h v = Some (a, xs)"
  shows "cast this v data h = (v, h[a := ArrayCell (map (\<lambda>x. c_cast (sa_child this) x data) xs)])"
proof -
  from assms have v: "v = Ref a" "a < length h" "h ! a = ArrayCell xs"
    by (rule array_atD)+
  then have len: "get_length h (Ref a) = Some (length xs)" and c: "cell_at h a = ArrayCell xs"
    by (simp_all add: get_length_def cell_at_def)
  from v have b: "SchemaType_cast this v data h = (v, h)" and n: "\<not> nullish v"
    by (simp_all add: SchemaType_cast_def nullish_def)
  show ?thesis
  proof (cases "xs = []")
    case True
    with assms b n len v show ?thesis
      by (simp add: cast_def update_same)
  next
    case False
    with assms b n len v cast_loop_maps [OF c, of "length xs" 0 "sa_child this" data]
    show ?thesis
      by (simp add: cast_def)
  qed
qed

lemma cast_wraps:
  assumes "v \<noteq> Undefined" "v \<noteq> Null" "\<not> isArray h v"
  shows "cast this v data h =
    (Ref (length h), h @ [ArrayCell [c_cast (sa_child this) v data]])"
proof -
  let ?h2 = "h @ [ArrayCell [v]]"
  from assms have b: "SchemaType_cast this v data h = (v, h)" and n: "\<not> nullish v"
    by (simp_all add: SchemaType_cast_def nullish_def)
  from assms have na: "array_at h v = None"
    unfolding isArray_def by blast
  have c: "cell_at ?h2 (length h) = ArrayCell [v]"
    by (simp add: cell_at_def)
  then have len: "get_length ?h2 (Ref (length h)) = Some 1"
    by (simp add: get_length_def)
  from cast_loop_maps [OF c, of 1 0 "sa_child this" data]
  have "cast_loop (sa_child this) data (length h) 0 1 ?h2
    = h @ [ArrayCell [c_cast (sa_child this) v data]]"
    by simp
  with b n na len show ?thesis
    by (simp add: cast_def alloc_def)
qed

text \<open>
  An absent value is cast as the configured default is: the base cast puts the default in
  its place before the Array type looks at it.
\<close>

lemma cast_absent:
  "sa_default this h = (d, h1) \<Longrightarrow> d \<noteq> Undefined \<Longrightarrow>
   cast this Undefined data h = cast this d data h1"
  by (simp add: cast_def SchemaType_cast_def)

lemma cast_absent_example:
  "cast (array_of mixed) Undefined Undefined [] = (Ref 0, [ArrayCell []])"
  by code_simp

text \<open>
  Claim C3. \<^verbatim>\<open>cast\<close> returns \<^verbatim>\<open>null\<close> for \<^verbatim>\<open>null\<close>. A value that is present (neither
  \<^verbatim>\<open>undefined\<close>, which the base cast replaces by the default first, nor \<^verbatim>\<open>null\<close>)
  and not an array is wrapped: the result is a new array whose one element is the
  child's cast of the value. An empty array comes back as it is, the same object in an
  unchanged store. Any array comes back as the same object, and in the store each of
  its elements is replaced by the child's cast of it, in index order.
\<close>

theorem cast_by_case:
  "cast this Null data h = (Null, h)
   \<and> (v \<noteq> Undefined \<and> v \<noteq> Null \<and> \<not> isArray h v \<longrightarrow>
        cast this v data h = (Ref (length h), h @ [ArrayCell [c_cast (sa_child this) v data]]))
   \<and> (array_at h v = Some (a, []) \<longrightarrow> cast this v data h = (v, h))
   \<and> (array_at h v = Some (a, xs) \<longrightarrow>
        cast this v data h
          = (v, h[a := ArrayCell (map (\<lambda>x. c_cast (sa_child this) x data) xs)]))"
proof -
  have "cast this Null data h = (Null, h)"
    by (simp add: cast_def SchemaType_cast_def nullish_def)
  moreover have "cast this v data h = (v, h)" if "array_at h v = Some (a, [])"
    using cast_array [OF that, of this data] array_atD [OF that] by (simp add: update_same)
  ultimately show ?thesis
    by (simp add: cast_wraps cast_array)
qed

theorem cast_by_case_witness:
  "cast (array_of mixed) Null Undefined [] = (Null, [])
   \<and> cast (array_of (mixed\<lparr>c_cast := (\<lambda>v data. Str (to_string v))\<rparr>)) (Num 5) Undefined []
       = (Ref 0, [ArrayCell [Str ''5'']])
   \<and> cast (array_of mixed) (Ref 0) Undefined [ArrayCell []] = (Ref 0, [ArrayCell []])
   \<and> cast (array_of (mixed\<lparr>c_cast := (\<lambda>v data. Str (to_string v))\<rparr>)) (Ref 0) Undefined
        [ArrayCell [Num 1, Bool True]]
       = (Ref 0, [ArrayCell [Str ''1'', Str ''true'']])"
proof -
  let ?strings = "array_of (mixed\<lparr>c_cast := (\<lambda>v data. Str (to_string v))\<rparr>)"
  have c: "c_cast (sa_child ?strings) = (\<lambda>v data. Str (to_string v))"
    by (simp add: array_of_def)
  have s: "to_string (Num 5) = ''5''" "to_string (Num 1) = ''1''" "to_string (Bool True) = ''true''"
    by code_simp+
  have n: "Num 5 \<noteq> Undefined \<and> Num 5 \<noteq> Null \<and> \<not> isArray [] (Num 5)"
    by (simp add: isArray_def array_at_def)
  have e: "array_at [ArrayCell []] (Ref 0) = Some (0, [])"
    and a: "array_at [ArrayCell [Num 1, Bool True]] (Ref 0) = Some (0, [Num 1, Bool True])"
    by (simp_all add: array_at_def cell_at_def)
  from cast_by_case [of "array_of mixed" Undefined "[]" Undefined]
  have 1: "cast (array_of mixed) Null Undefined [] = (Null, [])" by simp
  from cast_by_case [of ?strings Undefined "[]" "Num 5"] n c s
  have 2: "cast ?strings (Num 5) Undefined [] = (Ref 0, [ArrayCell [Str ''5'']])" by simp
  from cast_by_case [of "array_of mixed" Undefined "[ArrayCell []]" "Ref 0" 0] e
  have 3: "cast (array_of mixed) (Ref 0) Undefined [ArrayCell []] = (Ref 0, [ArrayCell []])"
    by simp
  from cast_by_case [of ?strings Undefined "[ArrayCell [Num 1, Bool True]]" "Ref 0" 0
      "[Num 1, Bool True]"] a c s
  have 4: "cast ?strings (Ref 0) Undefined [ArrayCell [Num 1, Bool True]]
       = (Ref 0, [ArrayCell [Str ''1'', Str ''true'']])" by simp
  from 1 2 3 4 show ?thesis by simp
qed

section \<open>\<^verbatim>\<open>validate\<close>\<close>

lemma validate_loop_list:
  "cell_at h a = ArrayCell ys \<Longrightarrow> a < length h \<Longrightarrow> length ys = len \<Longrightarrow> i \<le> len \<Longrightarrow>
   validate_loop child data a i len h =
     (case validate_list (\<lambda>x. c_validate child x data) (drop i ys) of
        (r, zs) \<Rightarrow> (r, h[a := ArrayCell (take i ys @ zs)]))"
proof (induction child data a i len h arbitrary: ys rule: validate_loop.induct)
  case (1 child data a i len h)
  show ?case
  proof (cases "i < len")
    case False
    then have "validate_loop child data a i len h = (None, h)"
      by (simp add: validate_loop.simps [of child data a i len h])
    moreover from False "1.prems" have "i = len" by simp
    ultimately show ?thesis
      using "1.prems" by (simp add: cell_at_def update_same)
  next
    case True
    from True "1.prems" have g: "get_index h (Ref a) i = ys ! i"
      by (simp add: get_index_def)
    from True "1.prems" have d: "drop i ys = ys ! i # drop (Suc i) ys"
      by (simp add: Cons_nth_drop_Suc)
    show ?thesis
    proof (cases "c_validate child (ys ! i) data")
      case (Inl e)
      with d have "validate_list (\<lambda>x. c_validate child x data) (drop i ys)
        = (Some e, drop i ys)"
        by simp
      with True g Inl "1.prems" show ?thesis
        by (simp add: validate_loop.simps [of child data a i len h] cell_at_def update_same)
    next
      case (Inr y)
      let ?h = "h[a := ArrayCell (ys[i := y])]"
      from True "1.prems" have s: "set_index h a i y = ?h"
        by (simp add: set_index_array)
      have c: "cell_at ?h a = ArrayCell (ys[i := y])"
        using "1.prems" by (simp add: cell_at_update)
      have "validate_loop child data a (Suc i) len ?h =
        (case validate_list (\<lambda>x. c_validate child x data) (drop (Suc i) (ys[i := y])) of
           (r, zs) \<Rightarrow> (r, ?h[a := ArrayCell (take (Suc i) (ys[i := y]) @ zs)]))"
        using "1.IH" [OF True, of y "ys[i := y]"] True "1.prems" c s g Inr by simp
      with True "1.prems" s g d Inr show ?thesis
        by (simp add: validate_loop.simps [of child data a i len h] take_Suc_update
            split: prod.splits)
    qed
  qed
qed

lemma validate_list_all:
  "\<forall>x\<in>set xs. \<exists>y. f x = Inr y \<Longrightarrow> validate_list f xs = (None, map (\<lambda>x. projr (f x)) xs)"
  by (induction xs) auto

lemma validate_list_first:
  "k < length xs \<Longrightarrow> f (xs ! k) = Inl e \<Longrightarrow> \<forall>j<k. \<exists>y. f (xs ! j) = Inr y \<Longrightarrow>
   validate_list f xs = (Some e, map (\<lambda>x. projr (f x)) (take k xs) @ drop k xs)"
proof (induction xs arbitrary: k)
  case Nil
  then show ?case by simp
next
  case (Cons x xs)
  show ?case
  proof (cases k)
    case 0
    with Cons.prems show ?thesis by simp
  next
    case (Suc m)
    with Cons.prems have "\<exists>y. f x = Inr y" by auto
    then obtain y where y: "f x = Inr y" ..
    from Suc Cons.prems have "validate_list f xs
      = (Some e, map (\<lambda>x. projr (f x)) (take m xs) @ drop m xs)"
      by (intro Cons.IH) auto
    with y Suc show ?thesis by simp
  qed
qed

lemma validate_array:
  assumes "SchemaType_validate this v0 data = Inr v" and "array_at h v = Some (a, xs)"
  shows "validate this v0 data h =
    (case validate_list (\<lambda>x. c_validate (sa_child this) x data) xs of
       (None, zs) \<Rightarrow> (Inr v, h[a := ArrayCell zs])
     | (Some e, zs) \<Rightarrow> (Inl e, h[a := ArrayCell zs]))"
proof -
  from assms(2) have v: "v = Ref a" "a < length h" "h ! a = ArrayCell xs"
    by (rule array_atD)+
  then have c: "cell_at h a = ArrayCell xs"
    by (simp add: cell_at_def)
  show ?thesis
  proof (cases "xs = []")
    case True
    with assms v show ?thesis by (simp add: validate_def update_same)
  next
    case False
    with assms validate_loop_list [OF c, of "length xs" 0 "sa_child this" data] v
    show ?thesis
      by (simp add: validate_def split: prod.splits option.splits)
  qed
qed



text \<open>
  Claim C4. When the base validation passes a value that is not an array,
  \<^verbatim>\<open>validate\<close> fails with the ValidationError of the source and leaves the store alone.
  On an array whose elements the child all accepts it returns the array, each element
  replaced by the child's result. When the child rejects an element, the error of the
  first such element (in index order) is the error of the whole call, unchanged, and
  the loop stops there: the elements after it are not validated.
\<close>

theorem validate_checks_elements:
  "(SchemaType_validate this v0 data = Inr v \<and> \<not> isArray h v \<longrightarrow>
      validate this v0 data h
        = (Inl (ValidationError (''`'' @ to_string v @ ''` is not an array!'')), h))
   \<and> (SchemaType_validate this v0 data = Inr v \<and> array_at h v = Some (a, xs)
        \<and> (\<forall>x\<in>set xs. \<exists>y. c_validate (sa_child this) x data = Inr y) \<longrightarrow>
      validate this v0 data h
        = (Inr v, h[a := ArrayCell (map (\<lambda>x. projr (c_validate (sa_child this) x data)) xs)]))
   \<and> (SchemaType_validate this v0 data = Inr v \<and> array_at h v = Some (a, xs)
        \<and> k < length xs \<and> c_validate (sa_child this) (xs ! k) data = Inl e
        \<and> (\<forall>j<k. \<exists>y. c_validate (sa_child this) (xs ! j) data = Inr y) \<longrightarrow>
      validate this v0 data h
        = (Inl e, h[a := ArrayCell (map (\<lambda>x. projr (c_validate (sa_child this) x data))
                                       (take k xs) @ drop k xs)]))"
proof (intro conjI impI)
  assume "SchemaType_validate this v0 data = Inr v \<and> \<not> isArray h v"
  then show "validate this v0 data h
    = (Inl (ValidationError (''`'' @ to_string v @ ''` is not an array!'')), h)"
    by (simp add: validate_def not_isArray)
next
  assume *: "SchemaType_validate this v0 data = Inr v \<and> array_at h v = Some (a, xs)
    \<and> (\<forall>x\<in>set xs. \<exists>y. c_validate (sa_child this) x data = Inr y)"
  then have "validate_list (\<lambda>x. c_validate (sa_child this) x data) xs
    = (None, map (\<lambda>x. projr (c_validate (sa_child this) x data)) xs)"
    by (intro validate_list_all) simp
  with * show "validate this v0 data h
    = (Inr v, h[a := ArrayCell (map (\<lambda>x. projr (c_validate (sa_child this) x data)) xs)])"
    by (simp add: validate_array)
next
  assume *: "SchemaType_validate this v0 data = Inr v \<and> array_at h v = Some (a, xs)
    \<and> k < length xs \<and> c_validate (sa_child this) (xs ! k) data = Inl e
    \<and> (\<forall>j<k. \<exists>y. c_validate (sa_child this) (xs ! j) data = Inr y)"
  then have "validate_list (\<lambda>x. c_validate (sa_child this) x data) xs
    = (Some e, map (\<lambda>x. projr (c_validate (sa_child this) x data)) (take k xs) @ drop k xs)"
    by (intro validate_list_first) simp_all
  with * show "validate this v0 data h
        = (Inl e, h[a := ArrayCell (map (\<lambda>x. projr (c_validate (sa_child this) x data))
                                       (take k xs) @ drop k xs)])"
    by (simp add: validate_array)
qed

theorem validate_checks_elements_witness:
  "validate (array_of percent) (Num 7) Undefined []
     = (Inl (ValidationError ''`7` is not an array!''), [])
   \<and> validate (array_of percent) (Ref 0) Undefined [ArrayCell [Num 250, Num 3]]
     = (Inr (Ref 0), [ArrayCell [Num 100, Num 3]])
   \<and> validate (array_of percent) (Ref 0) Undefined [ArrayCell [Num 250, Str ''x'', Null]]
     = (Inl (ValidationError ''`x` is not a number!''), [ArrayCell [Num 100, Str ''x'', Null]])"
proof -
  let ?T = "array_of percent"
  have b: "SchemaType_validate ?T v Undefined = Inr v" for v
    by (simp add: SchemaType_validate_def array_of_def)
  have c: "c_validate (sa_child ?T) (Num n) Undefined = Inr (Num (min n 100))" for n
    by (simp add: array_of_def percent_def)
  have s: "to_string (Num 7) = ''7''"
    by code_simp
  have x: "c_validate (sa_child ?T) (Str ''x'') Undefined
    = Inl (ValidationError ''`x` is not a number!'')"
    by (simp add: array_of_def percent_def to_string_def)
  have 1: "SchemaType_validate ?T (Num 7) Undefined = Inr (Num 7) \<and> \<not> isArray [] (Num 7)"
    by (simp add: b isArray_def array_at_def)
  have 2: "SchemaType_validate ?T (Ref 0) Undefined = Inr (Ref 0)
    \<and> array_at [ArrayCell [Num 250, Num 3]] (Ref 0) = Some (0, [Num 250, Num 3])
    \<and> (\<forall>x\<in>set [Num 250, Num 3]. \<exists>y. c_validate (sa_child ?T) x Undefined = Inr y)"
    by (simp add: b c array_at_def cell_at_def)
  have 3: "SchemaType_validate ?T (Ref 0) Undefined = Inr (Ref 0)
    \<and> array_at [ArrayCell [Num 250, Str ''x'', Null]] (Ref 0)
        = Some (0, [Num 250, Str ''x'', Null])
    \<and> (1::nat) < length [Num 250, Str ''x'', Null]
    \<and> c_validate (sa_child ?T) ([Num 250, Str ''x'', Null] ! 1) Undefined
        = Inl (ValidationError ''`x` is not a number!'')
    \<and> (\<forall>j<1. \<exists>y. c_validate (sa_child ?T) ([Num 250, Str ''x'', Null] ! j) Undefined
        = Inr y)"
    by (simp add: b c x array_at_def cell_at_def)
  from validate_checks_elements [of ?T "Num 7" Undefined "Num 7" "[]"] 1 s
  have r1: "validate ?T (Num 7) Undefined []
     = (Inl (ValidationError ''`7` is not an array!''), [])"
    by simp
  from validate_checks_elements [of ?T "Ref 0" Undefined "Ref 0" "[ArrayCell [Num 250, Num 3]]"
      0 "[Num 250, Num 3]"] 2 c
  have r2: "validate ?T (Ref 0) Undefined [ArrayCell [Num 250, Num 3]]
     = (Inr (Ref 0), [ArrayCell [Num 100, Num 3]])"
    by simp
  from validate_checks_elements [of ?T "Ref 0" Undefined "Ref 0"
      "[ArrayCell [Num 250, Str ''x'', Null]]" 0 "[Num 250, Str ''x'', Null]" 1
      "ValidationError ''`x` is not a number!''"] 3 c
  have r3: "validate ?T (Ref 0) Undefined [ArrayCell [Num 250, Str ''x'', Null]]
     = (Inl (ValidationError ''`x` is not a number!''), [ArrayCell [Num 100, Str ''x'', Null]])"
    by simp
  from r1 r2 r3 show ?thesis by blast
qed




section \<open>\<^verbatim>\<open>compare\<close>\<close>

lemma compare_loop_tie:
  "\<forall>j. i \<le> j \<and> j < len \<longrightarrow> c_compare child (get_index h a j) (get_index h b j) = 0 \<Longrightarrow>
   compare_loop child h a b i len = None"
proof (induction child h a b i len rule: compare_loop.induct)
  case (1 child h a b i len)
  show ?case
  proof (cases "i < len")
    case False
    then show ?thesis by (simp add: compare_loop.simps [of child h a b i len])
  next
    case True
    with "1.prems" have z: "c_compare child (get_index h a i) (get_index h b i) = 0" by simp
    from "1.prems" have "\<forall>j. Suc i \<le> j \<and> j < len \<longrightarrow>
      c_compare child (get_index h a j) (get_index h b j) = 0" by simp
    with "1.IH" [OF True refl] z have "compare_loop child h a b (Suc i) len = None" by simp
    with True z show ?thesis by (simp add: compare_loop.simps [of child h a b i len])
  qed
qed

lemma compare_loop_first:
  "i \<le> k \<Longrightarrow> k < len \<Longrightarrow> c_compare child (get_index h a k) (get_index h b k) \<noteq> 0 \<Longrightarrow>
   \<forall>j. i \<le> j \<and> j < k \<longrightarrow> c_compare child (get_index h a j) (get_index h b j) = 0 \<Longrightarrow>
   compare_loop child h a b i len = Some (c_compare child (get_index h a k) (get_index h b k))"
proof (induction child h a b i len rule: compare_loop.induct)
  case (1 child h a b i len)
  from "1.prems" have lt: "i < len" by simp
  show ?case
  proof (cases "i = k")
    case True
    with lt "1.prems" show ?thesis by (subst compare_loop.simps) simp
  next
    case False
    with "1.prems" have z: "c_compare child (get_index h a i) (get_index h b i) = 0"
      and s: "Suc i \<le> k" by simp_all
    from "1.prems" have "\<forall>j. Suc i \<le> j \<and> j < k \<longrightarrow>
      c_compare child (get_index h a j) (get_index h b j) = 0" by simp
    with "1.IH" [OF lt refl] z s "1.prems"
    have "compare_loop child h a b (Suc i) len
      = Some (c_compare child (get_index h a k) (get_index h b k))" by simp
    with lt z show ?thesis by (simp add: compare_loop.simps [of child h a b i len])
  qed
qed

lemma compare_loop_swap:
  "\<forall>x y. c_compare child x y = - c_compare child y x \<Longrightarrow>
   compare_loop child h b a i len = map_option uminus (compare_loop child h a b i len)"
proof (induction child h a b i len rule: compare_loop.induct)
  case (1 child h a b i len)
  show ?case
  proof (cases "i < len")
    case False
    then show ?thesis
      by (simp add: compare_loop.simps [of child h a b i len]
          compare_loop.simps [of child h b a i len])
  next
    case True
    from "1.prems" have sw: "c_compare child (get_index h b i) (get_index h a i)
      = - c_compare child (get_index h a i) (get_index h b i)" by blast
    show ?thesis
    proof (cases "c_compare child (get_index h a i) (get_index h b i) = 0")
      case z: True
      with "1.IH" [OF True refl _ "1.prems"] True sw show ?thesis
        by (simp add: compare_loop.simps [of child h a b i len]
            compare_loop.simps [of child h b a i len])
    next
      case False
      with True sw show ?thesis
        by (simp add: compare_loop.simps [of child h a b i len]
            compare_loop.simps [of child h b a i len])
    qed
  qed
qed

lemma compare_arrays:
  assumes "array_at h a = Some (p, xs)" and "array_at h b = Some (q, ys)"
  shows "compare this h a b =
    (case compare_loop (sa_child this) h a b 0 (min (length xs) (length ys)) of
       Some result \<Rightarrow> Some result
     | None \<Rightarrow> Some (int (length xs) - int (length ys)))"
  using array_at_facts(1,2) [OF assms(1)] array_at_facts(1,2) [OF assms(2)]
  by (simp add: compare_def)

lemma compare_returns_number:
  assumes a: "isArray h a \<or> \<not> truthy a" and b: "isArray h b \<or> \<not> truthy b"
  shows "\<exists>r. compare this h a b = Some r"
proof (cases "truthy a \<and> truthy b")
  case False
  then show ?thesis by (auto simp: compare_def)
next
  case True
  with a b obtain p xs q ys
    where xa: "array_at h a = Some (p, xs)" and xb: "array_at h b = Some (q, ys)"
    by (auto simp: isArray_def)
  from compare_arrays [OF xa xb, of this] show ?thesis
    by (cases "compare_loop (sa_child this) h a b 0 (min (length xs) (length ys))") simp_all
qed

lemma compare_antisymmetric:
  assumes anti: "\<forall>x y. c_compare (sa_child this) x y = - c_compare (sa_child this) y x"
    and a: "isArray h a \<or> \<not> truthy a" and b: "isArray h b \<or> \<not> truthy b"
  shows "\<exists>r. compare this h a b = Some r \<and> compare this h b a = Some (- r)"
proof (cases "truthy a")
  case False
  then show ?thesis by (simp add: compare_def)
next
  case ta: True
  show ?thesis
  proof (cases "truthy b")
    case False
    with ta show ?thesis by (simp add: compare_def)
  next
    case True
    with ta a b obtain p xs q ys
      where xa: "array_at h a = Some (p, xs)" and xb: "array_at h b = Some (q, ys)"
      by (auto simp: isArray_def)
    let ?m = "min (length xs) (length ys)"
    have m: "min (length ys) (length xs) = ?m" by simp
    show ?thesis
    proof (cases "compare_loop (sa_child this) h a b 0 ?m")
      case None
      with compare_loop_swap [OF anti, of h b a 0 ?m] compare_arrays [OF xa xb, of this]
        compare_arrays [OF xb xa, of this] m
      show ?thesis by simp
    next
      case (Some r)
      with compare_loop_swap [OF anti, of h b a 0 ?m] compare_arrays [OF xa xb, of this]
        compare_arrays [OF xb xa, of this] m
      show ?thesis by simp
    qed
  qed
qed

lemma SchemaType_compare_swap: "SchemaType_compare x y = - SchemaType_compare y x"
  by (cases x; cases y) (simp_all add: SchemaType_compare_def nullish_def)

text \<open>
  Claim C5. \<^verbatim>\<open>compare\<close> takes arrays and absent values, and on these it always
  returns a number. With a child whose \<^verbatim>\<open>compare\<close> changes sign when its arguments
  are swapped, \<^verbatim>\<open>compare(b, a)\<close> is the negation of \<^verbatim>\<open>compare(a, b)\<close>.
  \<^verbatim>\<open>compare(null, x)\<close> is \<open>-1\<close> for every array \<open>x\<close>, the empty one too, as for
  every truthy \<open>x\<close> (the test is \<^verbatim>\<open>b ? -1 : 0\<close>), and two absent values compare
  equal. Two arrays are compared element by element with the child's \<^verbatim>\<open>compare\<close>,
  and the first result that is not zero is the result. When all compared elements tie,
  the result is \<^verbatim>\<open>lenA - lenB\<close>, so the shorter array comes first:
  \<^verbatim>\<open>compare([1,2], [1,2,3])\<close> is \<open>-1\<close> as soon as the child finds 1 equal to 1 and 2
  equal to 2.
\<close>

theorem compare_orders_arrays:
  "((\<forall>x y. c_compare (sa_child this) x y = - c_compare (sa_child this) y x)
      \<and> (isArray h a \<or> \<not> truthy a) \<and> (isArray h b \<or> \<not> truthy b) \<longrightarrow>
    (\<exists>r. compare this h a b = Some r \<and> compare this h b a = Some (- r)))
   \<and> ((isArray h a \<or> \<not> truthy a) \<and> (isArray h b \<or> \<not> truthy b) \<longrightarrow>
        (\<exists>r. compare this h a b = Some r))
   \<and> (isArray h b \<longrightarrow> truthy b)
   \<and> (truthy b \<longrightarrow> compare this h Null b = Some (- 1) \<and> compare this h b Null = Some 1)
   \<and> compare this h Null Null = Some 0
   \<and> (array_at h a = Some (p, xs) \<and> array_at h b = Some (q, ys)
        \<and> k < min (length xs) (length ys)
        \<and> c_compare (sa_child this) (xs ! k) (ys ! k) \<noteq> 0
        \<and> (\<forall>j<k. c_compare (sa_child this) (xs ! j) (ys ! j) = 0) \<longrightarrow>
      compare this h a b = Some (c_compare (sa_child this) (xs ! k) (ys ! k)))
   \<and> (array_at h a = Some (p, xs) \<and> array_at h b = Some (q, ys)
        \<and> (\<forall>j<min (length xs) (length ys). c_compare (sa_child this) (xs ! j) (ys ! j) = 0) \<longrightarrow>
      compare this h a b = Some (int (length xs) - int (length ys)))
   \<and> (array_at h a = Some (p, [Num 1, Num 2]) \<and> array_at h b = Some (q, [Num 1, Num 2, Num 3])
        \<and> c_compare (sa_child this) (Num 1) (Num 1) = 0
        \<and> c_compare (sa_child this) (Num 2) (Num 2) = 0 \<longrightarrow>
      compare this h a b = Some (- 1))"
proof -
  let ?c = "c_compare (sa_child this)"
  have p1: "(\<forall>x y. ?c x y = - ?c y x)
      \<and> (isArray h a \<or> \<not> truthy a) \<and> (isArray h b \<or> \<not> truthy b) \<longrightarrow>
    (\<exists>r. compare this h a b = Some r \<and> compare this h b a = Some (- r))"
    using compare_antisymmetric [of this h a b] by blast
  have p1': "(isArray h a \<or> \<not> truthy a) \<and> (isArray h b \<or> \<not> truthy b) \<longrightarrow>
        (\<exists>r. compare this h a b = Some r)"
    using compare_returns_number [of h a b this] by blast
  have p2: "isArray h b \<longrightarrow> truthy b"
  proof
    assume "isArray h b"
    then obtain q ys where "array_at h b = Some (q, ys)"
      by (auto simp: isArray_def)
    from array_at_facts(1) [OF this] show "truthy b" .
  qed
  have p2': "truthy b \<longrightarrow> compare this h Null b = Some (- 1) \<and> compare this h b Null = Some 1"
    by (simp add: compare_def)
  have p2'': "compare this h Null Null = Some 0"
    by (simp add: compare_def)
  have tie: "compare this h a b = Some (int (length xs) - int (length ys))"
    if xa: "array_at h a = Some (p, xs)" and xb: "array_at h b = Some (q, ys)"
      and z: "\<forall>j<min (length xs) (length ys). ?c (xs ! j) (ys ! j) = 0"
    for a b p q xs ys
  proof -
    from z have "\<forall>j. 0 \<le> j \<and> j < min (length xs) (length ys) \<longrightarrow>
      ?c (get_index h a j) (get_index h b j) = 0"
      by (simp add: array_at_facts(3) [OF xa] array_at_facts(3) [OF xb])
    from compare_loop_tie [OF this] compare_arrays [OF xa xb, of this] show ?thesis
      by simp
  qed
  have p3: "array_at h a = Some (p, xs) \<and> array_at h b = Some (q, ys)
        \<and> k < min (length xs) (length ys) \<and> ?c (xs ! k) (ys ! k) \<noteq> 0
        \<and> (\<forall>j<k. ?c (xs ! j) (ys ! j) = 0) \<longrightarrow>
      compare this h a b = Some (?c (xs ! k) (ys ! k))"
  proof
    assume *: "array_at h a = Some (p, xs) \<and> array_at h b = Some (q, ys)
        \<and> k < min (length xs) (length ys) \<and> ?c (xs ! k) (ys ! k) \<noteq> 0
        \<and> (\<forall>j<k. ?c (xs ! j) (ys ! j) = 0)"
    then have xa: "array_at h a = Some (p, xs)" and xb: "array_at h b = Some (q, ys)"
      and k: "k < min (length xs) (length ys)"
      by simp_all
    from * k have nz: "?c (get_index h a k) (get_index h b k) \<noteq> 0"
      by (simp add: array_at_facts(3) [OF xa] array_at_facts(3) [OF xb])
    from * k have "\<forall>j. 0 \<le> j \<and> j < k \<longrightarrow> ?c (get_index h a j) (get_index h b j) = 0"
      by (simp add: array_at_facts(3) [OF xa] array_at_facts(3) [OF xb])
    from compare_loop_first [OF _ k nz this] compare_arrays [OF xa xb, of this] k
    show "compare this h a b = Some (?c (xs ! k) (ys ! k))"
      by (simp add: array_at_facts(3) [OF xa] array_at_facts(3) [OF xb])
  qed
  have p4: "array_at h a = Some (p, xs) \<and> array_at h b = Some (q, ys)
        \<and> (\<forall>j<min (length xs) (length ys). ?c (xs ! j) (ys ! j) = 0) \<longrightarrow>
      compare this h a b = Some (int (length xs) - int (length ys))"
    using tie [of a p xs b q ys] by blast
  have p5: "array_at h a = Some (p, [Num 1, Num 2]) \<and> array_at h b = Some (q, [Num 1, Num 2, Num 3])
        \<and> ?c (Num 1) (Num 1) = 0 \<and> ?c (Num 2) (Num 2) = 0 \<longrightarrow>
      compare this h a b = Some (- 1)"
  proof
    assume *: "array_at h a = Some (p, [Num 1, Num 2])
        \<and> array_at h b = Some (q, [Num 1, Num 2, Num 3])
        \<and> ?c (Num 1) (Num 1) = 0 \<and> ?c (Num 2) (Num 2) = 0"
    then have "\<forall>j<min (length [Num 1, Num 2]) (length [Num 1, Num 2, Num 3]).
      ?c ([Num 1, Num 2] ! j) ([Num 1, Num 2, Num 3] ! j) = 0"
      by (simp add: less_Suc_eq)
    with * tie [of a p "[Num 1, Num 2]" b q "[Num 1, Num 2, Num 3]"]
    show "compare this h a b = Some (- 1)"
      by simp
  qed
  show ?thesis
    by (intro conjI p1 p1' p2 p2' p2'' p3 p4 p5)
qed

theorem compare_orders_arrays_witness:
  "compare (array_of mixed) [ArrayCell [Num 1, Num 2], ArrayCell [Num 1, Num 2, Num 3]]
     (Ref 0) (Ref 1) = Some (- 1)
   \<and> compare (array_of mixed) [ArrayCell [Num 1, Num 2], ArrayCell [Num 1, Num 2, Num 3]]
     (Ref 1) (Ref 0) = Some 1
   \<and> compare (array_of mixed) [ArrayCell []] Null (Ref 0) = Some (- 1)
   \<and> compare (array_of mixed) [ArrayCell [Num 1, Num 5], ArrayCell [Num 1, Num 3, Num 9]]
     (Ref 0) (Ref 1) = Some 1"
proof -
  let ?T = "array_of mixed"
  let ?h = "[ArrayCell [Num 1, Num 2], ArrayCell [Num 1, Num 2, Num 3]]"
  let ?g = "[ArrayCell [Num 1, Num 5], ArrayCell [Num 1, Num 3, Num 9]]"
  have c: "c_compare (sa_child ?T) = SchemaType_compare"
    by (simp add: array_of_def mixed_def)
  have anti: "\<forall>x y. c_compare (sa_child ?T) x y = - c_compare (sa_child ?T) y x"
    unfolding c using SchemaType_compare_swap by blast
  have n: "SchemaType_compare (Num x) (Num y) = (if x > y then 1 else if x < y then - 1 else 0)"
    for x y
    by (simp add: SchemaType_compare_def nullish_def)
  have ha: "array_at ?h (Ref 0) = Some (0, [Num 1, Num 2])"
    "array_at ?h (Ref 1) = Some (1, [Num 1, Num 2, Num 3])"
    "array_at [ArrayCell []] (Ref 0) = Some (0, [])"
    "array_at ?g (Ref 0) = Some (0, [Num 1, Num 5])"
    "array_at ?g (Ref 1) = Some (1, [Num 1, Num 3, Num 9])"
    by (simp_all add: array_at_def cell_at_def)
  have ia: "isArray ?h (Ref 0)" "isArray ?h (Ref 1)" "isArray [ArrayCell []] (Ref 0)"
    by (simp_all add: isArray_def array_at_def cell_at_def)
  from compare_orders_arrays [of ?T ?h "Ref 0" "Ref 1" 0 "[Num 1, Num 2]" 1
      "[Num 1, Num 2, Num 3]" 0] ha c n
  have 1: "compare ?T ?h (Ref 0) (Ref 1) = Some (- 1)"
    by simp
  from compare_orders_arrays [of ?T ?h "Ref 0" "Ref 1"] anti ia
  have "\<exists>r. compare ?T ?h (Ref 0) (Ref 1) = Some r \<and> compare ?T ?h (Ref 1) (Ref 0) = Some (- r)"
    by blast
  with 1 have 2: "compare ?T ?h (Ref 1) (Ref 0) = Some 1"
    by auto
  from compare_orders_arrays [of ?T "[ArrayCell []]" Null "Ref 0"] ia
  have 3: "compare ?T [ArrayCell []] Null (Ref 0) = Some (- 1)"
    by blast
  have "array_at ?g (Ref 0) = Some (0, [Num 1, Num 5])
    \<and> array_at ?g (Ref 1) = Some (1, [Num 1, Num 3, Num 9])
    \<and> 1 < min (length [Num 1, Num 5]) (length [Num 1, Num 3, Num 9])
    \<and> c_compare (sa_child ?T) ([Num 1, Num 5] ! 1) ([Num 1, Num 3, Num 9] ! 1) \<noteq> 0
    \<and> (\<forall>j<1. c_compare (sa_child ?T) ([Num 1, Num 5] ! j) ([Num 1, Num 3, Num 9] ! j) = 0)"
    by (simp add: array_at_def cell_at_def c n)
  with compare_orders_arrays [of ?T ?g "Ref 0" "Ref 1" 0 "[Num 1, Num 5]" 1
      "[Num 1, Num 3, Num 9]" 1]
  have "compare ?T ?g (Ref 0) (Ref 1)
    = Some (c_compare (sa_child ?T) ([Num 1, Num 5] ! 1) ([Num 1, Num 3, Num 9] ! 1))"
    by blast
  then have 4: "compare ?T ?g (Ref 0) (Ref 1) = Some 1"
    by (simp add: c n)
  from 1 2 3 4 show ?thesis by blast
qed

section \<open>\<^verbatim>\<open>match\<close>\<close>

lemma match_loop_all:
  "match_loop child h v query data i n =
     (\<forall>j. i \<le> j \<and> j < n \<longrightarrow> c_match child (get_index h v j) (get_index h query j) data)"
proof (induction child h v query data i n rule: match_loop.induct)
  case (1 child h v query data i n)
  show ?case
  proof (cases "i < n")
    case False
    then show ?thesis by (auto simp: match_loop.simps [of child h v query data i n])
  next
    case True
    show ?thesis
    proof (cases "c_match child (get_index h v i) (get_index h query i) data")
      case False
      with True show ?thesis
        by (auto simp: match_loop.simps [of child h v query data i n])
    next
      case m: True
      have "(\<forall>j. i \<le> j \<and> j < n \<longrightarrow> c_match child (get_index h v j) (get_index h query j) data)
        = (\<forall>j. Suc i \<le> j \<and> j < n \<longrightarrow>
             c_match child (get_index h v j) (get_index h query j) data)"
        using m by (metis Suc_leI le_neq_implies_less Suc_leD)
      with "1.IH" [OF True] m True show ?thesis
        by (simp add: match_loop.simps [of child h v query data i n])
    qed
  qed
qed

text \<open>
  Claim C8. When either side is falsy, \<^verbatim>\<open>match\<close> is \<^verbatim>\<open>value === query\<close>: two falsy
  sides match only if they are the same value (\<^verbatim>\<open>null\<close> and \<^verbatim>\<open>undefined\<close> do not match
  each other), and a falsy side never matches an array. Two arrays match iff they have
  the same length and the child's \<^verbatim>\<open>match\<close> accepts each element against the query
  element at the same index; no other position is looked at.
\<close>

theorem match_positional:
  "(\<not> truthy v \<or> \<not> truthy query \<longrightarrow> match this h v query data = (v = query))
   \<and> (array_at h v = Some (p, xs) \<and> array_at h query = Some (q, ys) \<longrightarrow>
        match this h v query data
          = (length xs = length ys
             \<and> (\<forall>j<length xs. c_match (sa_child this) (xs ! j) (ys ! j) data)))"
proof -
  have p1: "\<not> truthy v \<or> \<not> truthy query \<longrightarrow> match this h v query data = (v = query)"
    by (simp add: match_def)
  have p2: "array_at h v = Some (p, xs) \<and> array_at h query = Some (q, ys) \<longrightarrow>
        match this h v query data
          = (length xs = length ys
             \<and> (\<forall>j<length xs. c_match (sa_child this) (xs ! j) (ys ! j) data))"
  proof
    assume "array_at h v = Some (p, xs) \<and> array_at h query = Some (q, ys)"
    then have xa: "array_at h v = Some (p, xs)" and xb: "array_at h query = Some (q, ys)"
      by simp_all
    show "match this h v query data
          = (length xs = length ys
             \<and> (\<forall>j<length xs. c_match (sa_child this) (xs ! j) (ys ! j) data))"
    proof (cases "length xs = length ys")
      case False
      with array_at_facts(1,2) [OF xa] array_at_facts(1,2) [OF xb] show ?thesis
        by (simp add: match_def)
    next
      case True
      with array_at_facts(1,2) [OF xa] array_at_facts(1,2) [OF xb]
      have "match this h v query data
        = match_loop (sa_child this) h v query data 0 (length xs)"
        by (simp add: match_def)
      with True show ?thesis
        by (simp add: match_loop_all array_at_facts(3) [OF xa] array_at_facts(3) [OF xb])
    qed
  qed
  show ?thesis
    by (rule conjI [OF p1 p2])
qed

theorem match_positional_witness:
  "match (array_of mixed) [] Null Null Undefined
   \<and> \<not> match (array_of mixed) [] Null Undefined Undefined
   \<and> \<not> match (array_of mixed) [ArrayCell []] Null (Ref 0) Undefined
   \<and> match (array_of mixed) [ArrayCell [Num 1, Num 2], ArrayCell [Num 1, Num 2]]
       (Ref 0) (Ref 1) Undefined
   \<and> \<not> match (array_of mixed) [ArrayCell [Num 1, Num 2], ArrayCell [Num 2, Num 1]]
       (Ref 0) (Ref 1) Undefined
   \<and> \<not> match (array_of mixed) [ArrayCell [Num 1, Num 2], ArrayCell [Num 1]]
       (Ref 0) (Ref 1) Undefined"
proof -
  let ?T = "array_of mixed"
  have c: "c_match (sa_child ?T) = (\<lambda>v query data. v = query)"
    by (simp add: array_of_def mixed_def)
  have a: "array_at [ArrayCell xs, ArrayCell ys] (Ref 0) = Some (0, xs)
      \<and> array_at [ArrayCell xs, ArrayCell ys] (Ref 1) = Some (1, ys)" for xs ys
    by (simp add: array_at_def cell_at_def)
  from match_positional [of Null Null ?T "[]" Undefined]
  have 1: "match ?T [] Null Null Undefined" by simp
  from match_positional [of Null Undefined ?T "[]" Undefined]
  have 2: "\<not> match ?T [] Null Undefined Undefined" by simp
  from match_positional [of Null "Ref 0" ?T "[ArrayCell []]" Undefined]
  have 3: "\<not> match ?T [ArrayCell []] Null (Ref 0) Undefined" by simp
  from match_positional [where v = "Ref 0" and query = "Ref 1" and this = ?T and data = Undefined
      and h = "[ArrayCell [Num 1, Num 2], ArrayCell [Num 1, Num 2]]"
      and p = 0 and xs = "[Num 1, Num 2]" and q = 1 and ys = "[Num 1, Num 2]"] a [of "[Num 1, Num 2]" "[Num 1, Num 2]"]
  have 4: "match ?T [ArrayCell [Num 1, Num 2], ArrayCell [Num 1, Num 2]] (Ref 0) (Ref 1) Undefined"
    by (simp add: c)
  from match_positional [where v = "Ref 0" and query = "Ref 1" and this = ?T and data = Undefined
      and h = "[ArrayCell [Num 1, Num 2], ArrayCell [Num 2, Num 1]]"
      and p = 0 and xs = "[Num 1, Num 2]" and q = 1 and ys = "[Num 2, Num 1]"] a [of "[Num 1, Num 2]" "[Num 2, Num 1]"]
  have 5: "\<not> match ?T [ArrayCell [Num 1, Num 2], ArrayCell [Num 2, Num 1]]
    (Ref 0) (Ref 1) Undefined"
    by (auto simp: c)
  from match_positional [where v = "Ref 0" and query = "Ref 1" and this = ?T and data = Undefined
      and h = "[ArrayCell [Num 1, Num 2], ArrayCell [Num 1]]"
      and p = 0 and xs = "[Num 1, Num 2]" and q = 1 and ys = "[Num 1]"] a [of "[Num 1, Num 2]" "[Num 1]"]
  have 6: "\<not> match ?T [ArrayCell [Num 1, Num 2], ArrayCell [Num 1]] (Ref 0) (Ref 1) Undefined"
    by simp
  from 1 2 3 4 5 6 show ?thesis by blast
qed

section \<open>The update operators \<^verbatim>\<open>u$shift\<close> and \<^verbatim>\<open>u$pop\<close>\<close>

lemma js_slice_array:
  "array_at h v = Some (a, xs) \<Longrightarrow>
   js_slice h v start stop = Inr (Ref (length h), h @ [ArrayCell (slice xs start stop)])"
  using array_atD [of h v a xs] by (simp add: js_slice_def alloc_def cell_at_def)

lemma slice_from: "0 \<le> n \<Longrightarrow> slice xs n None = drop (nat n) xs"
  by (simp add: slice_def relative_index_def min_def)

lemma slice_upto:
  "0 \<le> e \<Longrightarrow> slice xs 0 (Some e) = take (nat e) xs"
  by (simp add: slice_def relative_index_def min_def)

lemma slice_upto_negative:
  "e < 0 \<Longrightarrow> slice xs 0 (Some e) = take (nat (int (length xs) + e)) xs"
  by (simp add: slice_def relative_index_def max_def)

lemma slice_between:
  "0 \<le> n \<Longrightarrow> slice xs n (Some (int (length xs))) = drop (nat n) xs"
  by (simp add: slice_def relative_index_def min_def)

text \<open>
  On an array both operators return a new array. As long as the count does not exceed
  the length they remove what the count says: \<^verbatim>\<open>true\<close> one element, a positive count
  \<open>n\<close> that many from the operator's own end, a negative count \<open>-n\<close> that many from
  the other end. The two calls \<^verbatim>\<open>slice(n)\<close> remove everything when \<open>n\<close> exceeds the
  length.
\<close>

lemma u_shift_within_length:
  assumes "array_at h v = Some (a, xs)"
  shows "u_shift h v (Bool True) data = Some (Inr (Ref (length h), h @ [ArrayCell (drop 1 xs)]))"
    and "0 < n \<Longrightarrow>
      u_shift h v (Num (int n)) data = Some (Inr (Ref (length h), h @ [ArrayCell (drop n xs)]))"
    and "0 < n \<Longrightarrow> n \<le> length xs \<Longrightarrow>
      u_shift h v (Num (- int n)) data
        = Some (Inr (Ref (length h), h @ [ArrayCell (take (length xs - n) xs)]))"
  using array_at_facts(1,2) [OF assms] js_slice_array [OF assms]
  by (simp_all add: u_shift_def slice_from slice_upto nat_diff_distrib')

lemma u_pop_within_length:
  assumes "array_at h v = Some (a, xs)"
  shows "u_pop h v (Bool True) data
        = Some (Inr (Ref (length h), h @ [ArrayCell (butlast xs)]))"
    and "0 < n \<Longrightarrow> n \<le> length xs \<Longrightarrow>
      u_pop h v (Num (int n)) data
        = Some (Inr (Ref (length h), h @ [ArrayCell (take (length xs - n) xs)]))"
    and "0 < n \<Longrightarrow>
      u_pop h v (Num (- int n)) data = Some (Inr (Ref (length h), h @ [ArrayCell (drop n xs)]))"
proof -
  note f = array_at_facts(1,2) [OF assms] js_slice_array [OF assms]
  show "u_pop h v (Bool True) data
        = Some (Inr (Ref (length h), h @ [ArrayCell (butlast xs)]))"
  proof (cases "xs = []")
    case True
    with f show ?thesis by (simp add: u_pop_def slice_upto_negative)
  next
    case False
    then have "0 \<le> int (length xs) - 1" by (cases xs) simp_all
    with f show ?thesis
      by (simp add: u_pop_def slice_upto butlast_conv_take nat_diff_distrib')
  qed
  show "0 < n \<Longrightarrow> n \<le> length xs \<Longrightarrow>
      u_pop h v (Num (int n)) data
        = Some (Inr (Ref (length h), h @ [ArrayCell (take (length xs - n) xs)]))"
    using f by (simp add: u_pop_def slice_upto nat_diff_distrib')
  show "0 < n \<Longrightarrow>
      u_pop h v (Num (- int n)) data = Some (Inr (Ref (length h), h @ [ArrayCell (drop n xs)]))"
    using f by (simp add: u_pop_def slice_between)
qed

lemma u_pop_shift_examples:
  "u_pop [ArrayCell [Num 1, Num 2, Num 3]] (Ref 0) (Bool True) Undefined
     = Some (Inr (Ref 1, [ArrayCell [Num 1, Num 2, Num 3], ArrayCell [Num 1, Num 2]]))
   \<and> u_shift [ArrayCell [Num 1, Num 2, Num 3]] (Ref 0) (Num 1) Undefined
     = Some (Inr (Ref 1, [ArrayCell [Num 1, Num 2, Num 3], ArrayCell [Num 2, Num 3]]))"
  by code_simp

text \<open>
  The two calls \<^verbatim>\<open>slice(0, length - n)\<close> do not: past the length the end index is
  negative, \<^verbatim>\<open>slice\<close> counts it from the end of the array, and \<open>2 * length - n\<close>
  elements are left where none should be.
\<close>

lemma removing_more_than_there_is:
  assumes "array_at h v = Some (a, xs)" and "length xs < n"
  shows "u_pop h v (Num (int n)) data
        = Some (Inr (Ref (length h), h @ [ArrayCell (take (2 * length xs - n) xs)]))"
    and "u_shift h v (Num (- int n)) data
        = Some (Inr (Ref (length h), h @ [ArrayCell (take (2 * length xs - n) xs)]))"
proof -
  note f = array_at_facts(1,2) [OF assms(1)] js_slice_array [OF assms(1)]
  from assms(2) have e: "int (length xs) - int n < 0" "0 < n" by simp_all
  have t: "nat (int (length xs) + (int (length xs) - int n)) = 2 * length xs - n"
    by (simp add: nat_diff_distrib')
  from f e t show "u_pop h v (Num (int n)) data
        = Some (Inr (Ref (length h), h @ [ArrayCell (take (2 * length xs - n) xs)]))"
    by (simp add: u_pop_def slice_upto_negative)
  from f e t show "u_shift h v (Num (- int n)) data
        = Some (Inr (Ref (length h), h @ [ArrayCell (take (2 * length xs - n) xs)]))"
    by (simp add: u_shift_def slice_upto_negative)
qed

text \<open>
  Claim C6 holds of the operators up to the length of the array, and the code breaks it
  beyond: removing the last four of three elements with \<^verbatim>\<open>u$pop([1,2,3], 4)\<close>, or
  with \<^verbatim>\<open>u$shift([1,2,3], -4)\<close>, leaves \<^verbatim>\<open>[1,2]\<close>, while removing the first four
  with \<^verbatim>\<open>u$shift([1,2,3], 4)\<close> or \<^verbatim>\<open>u$pop([1,2,3], -4)\<close> leaves the empty array.
\<close>

theorem u_pop_removes_too_few:
  "u_pop [ArrayCell [Num 1, Num 2, Num 3]] (Ref 0) (Num 4) Undefined
     = Some (Inr (Ref 1, [ArrayCell [Num 1, Num 2, Num 3], ArrayCell [Num 1, Num 2]]))
   \<and> u_shift [ArrayCell [Num 1, Num 2, Num 3]] (Ref 0) (Num (- 4)) Undefined
     = Some (Inr (Ref 1, [ArrayCell [Num 1, Num 2, Num 3], ArrayCell [Num 1, Num 2]]))
   \<and> u_shift [ArrayCell [Num 1, Num 2, Num 3]] (Ref 0) (Num 4) Undefined
     = Some (Inr (Ref 1, [ArrayCell [Num 1, Num 2, Num 3], ArrayCell []]))
   \<and> u_pop [ArrayCell [Num 1, Num 2, Num 3]] (Ref 0) (Num (- 4)) Undefined
     = Some (Inr (Ref 1, [ArrayCell [Num 1, Num 2, Num 3], ArrayCell []]))"
  by code_simp

theorem u_pop_removes_too_few_witness:
  "(case u_pop [ArrayCell [Num 1, Num 2, Num 3]] (Ref 0) (Num 4) Undefined of
      Some (Inr (r, h')) \<Rightarrow> array_at h' r = Some (1, [Num 1, Num 2])
    | _ \<Rightarrow> False)"
  using u_pop_removes_too_few by (simp add: array_at_def cell_at_def)

section \<open>The update operator \<^verbatim>\<open>u$addToSet\<close>\<close>

lemma missing_members_Nil: "missing_members xs [] = []"
  by (simp add: missing_members_def)

lemma missing_members_present:
  "u \<in> set xs \<Longrightarrow> missing_members xs (u # us) = missing_members xs us"
  by (simp add: missing_members_def)

lemma remdups_snoc: "remdups (ys @ [u]) = filter (\<lambda>w. w \<noteq> u) (remdups ys) @ [u]"
  by (induction ys) auto

lemma missing_members_absent:
  assumes "u \<notin> set xs"
  shows "missing_members xs (u # us) = u # missing_members (xs @ [u]) us"
proof -
  let ?fl = "filter (\<lambda>w. w \<notin> set xs) us"
  have "rev (remdups (rev ?fl @ [u])) = u # rev (remdups (rev (filter (\<lambda>w. w \<noteq> u) ?fl)))"
    by (simp add: remdups_snoc remdups_filter rev_filter)
  moreover have "filter (\<lambda>w. w \<noteq> u) ?fl = filter (\<lambda>w. w \<notin> set (xs @ [u])) us"
    by (simp add: conj_commute)
  ultimately show ?thesis
    using assms by (simp add: missing_members_def)
qed

lemma fold_adds_missing:
  "fold (\<lambda>item acc. if item \<in> set acc then acc else acc @ [item]) us xs
     = xs @ missing_members xs us"
  by (induction us arbitrary: xs)
    (simp_all add: missing_members_Nil missing_members_present missing_members_absent)

lemma push_array:
  "array_at h v = Some (a, xs) \<Longrightarrow> js_push h v item = Inr (h[a := ArrayCell (xs @ [item])])"
  using array_atD [of h v a xs] by (simp add: js_push_def push_def cell_at_def)

lemma array_at_update_same:
  "array_at h v = Some (a, xs) \<Longrightarrow> array_at (h[a := ArrayCell ys]) v = Some (a, ys)"
  using array_atD [of h v a xs] by (simp add: array_at_def cell_at_def)

lemma array_at_update_other:
  "array_at h u = Some (b, us) \<Longrightarrow> b \<noteq> a \<Longrightarrow> array_at (h[a := c]) u = Some (b, us)"
  using array_atD [of h u b us] by (simp add: array_at_def cell_at_def)

lemma addToSet_loop_other:
  "array_at h v = Some (a, acc) \<Longrightarrow> array_at h update = Some (b, us) \<Longrightarrow> b \<noteq> a \<Longrightarrow>
   i \<le> length us \<Longrightarrow> len = length us \<Longrightarrow>
   addToSet_loop h v update i len =
     Some (Inr (h[a := ArrayCell
       (fold (\<lambda>item acc. if item \<in> set acc then acc else acc @ [item]) (drop i us) acc)]))"
proof (induction "len - i" arbitrary: i h acc)
  case 0
  then have "drop i us = []" and "\<not> i < len" by simp_all
  moreover from \<open>\<not> i < len\<close> have "addToSet_loop h v update i len = Some (Inr h)"
    by (simp add: addToSet_loop.simps [of h v update i len])
  ultimately show ?case
    using array_atD [OF "0.prems"(1)] by (simp add: update_same)
next
  case (Suc n)
  then have lt: "i < len" by simp
  let ?item = "us ! i"
  from lt Suc.prems have g: "get_index h update i = ?item"
    by (simp add: array_at_facts(3))
  from lt Suc.prems have d: "drop i us = ?item # drop (Suc i) us"
    by (simp add: Cons_nth_drop_Suc)
  note inc = js_includes_array [OF Suc.prems(1), of ?item]
  show ?case
  proof (cases "?item \<in> set acc")
    case True
    from Suc.hyps(2) lt have "n = len - Suc i" by simp
    from Suc.hyps(1) [OF this Suc.prems(1,2,3)] lt Suc.prems
    have "addToSet_loop h v update (Suc i) len = Some (Inr (h[a := ArrayCell
      (fold (\<lambda>item acc. if item \<in> set acc then acc else acc @ [item])
         (drop (Suc i) us) acc)]))"
      by simp
    with lt g inc True d show ?thesis
      by (simp add: addToSet_loop.simps [of h v update i len])
  next
    case False
    let ?h = "h[a := ArrayCell (acc @ [?item])]"
    note p = push_array [OF Suc.prems(1), of ?item]
    from Suc.hyps(2) lt have "n = len - Suc i" by simp
    from Suc.hyps(1) [OF this array_at_update_same [OF Suc.prems(1), of "acc @ [?item]"]
        array_at_update_other [OF Suc.prems(2,3), of "ArrayCell (acc @ [?item])"] Suc.prems(3)]
      lt Suc.prems
    have "addToSet_loop ?h v update (Suc i) len = Some (Inr (?h[a := ArrayCell
      (fold (\<lambda>item acc. if item \<in> set acc then acc else acc @ [item])
         (drop (Suc i) us) (acc @ [?item]))]))"
      by simp
    with lt g inc False d p show ?thesis
      by (simp add: addToSet_loop.simps [of h v update i len])
  qed
qed

lemma addToSet_loop_same:
  "array_at h v = Some (a, xs) \<Longrightarrow> len \<le> length xs \<Longrightarrow>
   addToSet_loop h v v i len = Some (Inr h)"
proof (induction "len - i" arbitrary: i)
  case 0
  then show ?case by (simp add: addToSet_loop.simps [of h v v i len])
next
  case (Suc n)
  then have lt: "i < len" by simp
  with Suc.prems have g: "get_index h v i = xs ! i" and m: "xs ! i \<in> set xs"
    by (simp_all add: array_at_facts(3))
  note inc = js_includes_array [OF Suc.prems(1), of "xs ! i"]
  from Suc.hyps(2) lt have "n = len - Suc i" by simp
  from Suc.hyps(1) [OF this Suc.prems]
  have "addToSet_loop h v v (Suc i) len = Some (Inr h)" .
  with lt g inc m show ?case
    by (simp add: addToSet_loop.simps [of h v v i len])
qed

lemma missing_members_set:
  "set (missing_members xs us) = set us - set xs" "distinct (missing_members xs us)"
  by (auto simp: missing_members_def)

lemma missing_members_self: "missing_members xs xs = []"
  by (simp add: missing_members_def)

lemma u_addToSet_scalar:
  assumes "array_at h v = Some (a, xs)" and "\<not> isArray h update"
  shows "u_addToSet h v update data
    = Some (Inr (v, if update \<in> set xs then h else h[a := ArrayCell (xs @ [update])]))"
  using assms array_at_facts(1) [OF assms(1)] js_includes_array [OF assms(1), of update]
    push_array [OF assms(1), of update]
  by (simp add: u_addToSet_def not_isArray)

lemma u_addToSet_members:
  assumes v: "array_at h v = Some (a, xs)" and u: "array_at h update = Some (b, us)"
  shows "u_addToSet h v update data
    = Some (Inr (v, h[a := ArrayCell (xs @ missing_members xs us)]))"
proof (cases "b = a")
  case True
  with array_atD [OF v] array_atD [OF u] have same: "update = v" "us = xs"
    by simp_all
  with addToSet_loop_same [OF v, of "length xs" 0] v array_at_facts(1) [OF v] array_atD [OF v]
  show ?thesis
    by (simp add: u_addToSet_def missing_members_self update_same)
next
  case False
  from addToSet_loop_other [OF v u False, of 0 "length us"] u array_at_facts(1) [OF v]
  show ?thesis
    by (simp add: u_addToSet_def fold_adds_missing)
qed

text \<open>
  Claim C7, as stated, fails: presence is decided by \<^verbatim>\<open>value.includes(item)\<close>, which
  compares objects by identity, not by content. Below, the value is \<^verbatim>\<open>[a]\<close> with
  \<^verbatim>\<open>a = [1]\<close> (addresses 0 and 1) and the operand is \<^verbatim>\<open>[b]\<close> with \<^verbatim>\<open>b = [1]\<close>
  (addresses 2 and 3). The member \<open>b\<close> has the content of \<open>a\<close>, which is present, and
  is appended all the same: the value ends as \<^verbatim>\<open>[[1], [1]]\<close>.
\<close>

theorem u_addToSet_appends_equal_content:
  "u_addToSet [ArrayCell [Ref 1], ArrayCell [Num 1], ArrayCell [Ref 3], ArrayCell [Num 1]]
     (Ref 0) (Ref 2) Undefined
     = Some (Inr (Ref 0,
         [ArrayCell [Ref 1, Ref 3], ArrayCell [Num 1], ArrayCell [Ref 3], ArrayCell [Num 1]]))
   \<and> cell_at [ArrayCell [Ref 1], ArrayCell [Num 1], ArrayCell [Ref 3], ArrayCell [Num 1]] 3
     = cell_at [ArrayCell [Ref 1], ArrayCell [Num 1], ArrayCell [Ref 3], ArrayCell [Num 1]] 1
   \<and> Ref 3 \<noteq> Ref 1"
  by code_simp

text \<open>
  Claim C7, amended. On an array, \<^verbatim>\<open>u$addToSet\<close> with an operand that is not an array
  appends the operand unless the array already includes it, and returns the array (the
  same object, changed in place). With an array as operand it appends the members of
  the operand that the array does not include: each once, in the order of their first
  occurrence in the operand. To include is meant as \<^verbatim>\<open>Array.prototype.includes\<close>
  means it (SameValueZero): primitives are compared by content, objects and nested
  arrays by identity. So \<^verbatim>\<open>u$addToSet([1,2], 2)\<close> is \<^verbatim>\<open>[1,2]\<close> and
  \<^verbatim>\<open>u$addToSet([1], [1,2])\<close> is \<^verbatim>\<open>[1,2]\<close>.
\<close>

theorem u_addToSet_adds_missing_once:
  "(array_at h v = Some (a, xs) \<and> \<not> isArray h update \<longrightarrow>
      u_addToSet h v update data
        = Some (Inr (v, if update \<in> set xs then h else h[a := ArrayCell (xs @ [update])])))
   \<and> (array_at h v = Some (a, xs) \<and> array_at h update = Some (b, us) \<longrightarrow>
      u_addToSet h v update data
        = Some (Inr (v, h[a := ArrayCell (xs @ missing_members xs us)])))
   \<and> set (missing_members xs us) = set us - set xs
   \<and> distinct (missing_members xs us)"
  using u_addToSet_scalar [of h v a xs update data] u_addToSet_members [of h v a xs update b us data]
    missing_members_set [of xs us]
  by blast

theorem u_addToSet_adds_missing_once_witness:
  "u_addToSet [ArrayCell [Num 1, Num 2]] (Ref 0) (Num 2) Undefined
     = Some (Inr (Ref 0, [ArrayCell [Num 1, Num 2]]))
   \<and> u_addToSet [ArrayCell [Num 1, Num 2]] (Ref 0) (Num 3) Undefined
     = Some (Inr (Ref 0, [ArrayCell [Num 1, Num 2, Num 3]]))
   \<and> u_addToSet [ArrayCell [Num 1], ArrayCell [Num 1, Num 2]] (Ref 0) (Ref 1) Undefined
     = Some (Inr (Ref 0, [ArrayCell [Num 1, Num 2], ArrayCell [Num 1, Num 2]]))
   \<and> u_addToSet [ArrayCell [Num 1], ArrayCell [Num 3, Num 1, Num 3, Num 2]] (Ref 0) (Ref 1)
       Undefined
     = Some (Inr (Ref 0, [ArrayCell [Num 1, Num 3, Num 2], ArrayCell [Num 3, Num 1, Num 3, Num 2]]))"
proof -
  have a: "array_at [ArrayCell [Num 1, Num 2]] (Ref 0) = Some (0, [Num 1, Num 2])
      \<and> \<not> isArray [ArrayCell [Num 1, Num 2]] (Num n)" for n
    by (simp add: isArray_def array_at_def cell_at_def)
  have b: "array_at [ArrayCell xs, ArrayCell us] (Ref 0) = Some (0, xs)
      \<and> array_at [ArrayCell xs, ArrayCell us] (Ref 1) = Some (1, us)" for xs us
    by (simp add: array_at_def cell_at_def)
  have m: "missing_members [Num 1] [Num 1, Num 2] = [Num 2]"
    "missing_members [Num 1] [Num 3, Num 1, Num 3, Num 2] = [Num 3, Num 2]"
    by (simp_all add: missing_members_def)
  from u_addToSet_adds_missing_once [where h = "[ArrayCell [Num 1, Num 2]]" and v = "Ref 0"
      and a = 0 and xs = "[Num 1, Num 2]" and update = "Num 2" and data = Undefined] a [of 2]
  have 1: "u_addToSet [ArrayCell [Num 1, Num 2]] (Ref 0) (Num 2) Undefined
     = Some (Inr (Ref 0, [ArrayCell [Num 1, Num 2]]))"
    by simp
  from u_addToSet_adds_missing_once [where h = "[ArrayCell [Num 1, Num 2]]" and v = "Ref 0"
      and a = 0 and xs = "[Num 1, Num 2]" and update = "Num 3" and data = Undefined] a [of 3]
  have 2: "u_addToSet [ArrayCell [Num 1, Num 2]] (Ref 0) (Num 3) Undefined
     = Some (Inr (Ref 0, [ArrayCell [Num 1, Num 2, Num 3]]))"
    by simp
  from u_addToSet_adds_missing_once [where h = "[ArrayCell [Num 1], ArrayCell [Num 1, Num 2]]"
      and v = "Ref 0" and a = 0 and xs = "[Num 1]" and update = "Ref 1" and b = 1
      and us = "[Num 1, Num 2]" and data = Undefined] b [of "[Num 1]" "[Num 1, Num 2]"] m
  have 3: "u_addToSet [ArrayCell [Num 1], ArrayCell [Num 1, Num 2]] (Ref 0) (Ref 1) Undefined
     = Some (Inr (Ref 0, [ArrayCell [Num 1, Num 2], ArrayCell [Num 1, Num 2]]))"
    by simp
  from u_addToSet_adds_missing_once [where
      h = "[ArrayCell [Num 1], ArrayCell [Num 3, Num 1, Num 3, Num 2]]"
      and v = "Ref 0" and a = 0 and xs = "[Num 1]" and update = "Ref 1" and b = 1
      and us = "[Num 3, Num 1, Num 3, Num 2]" and data = Undefined]
    b [of "[Num 1]" "[Num 3, Num 1, Num 3, Num 2]"] m
  have 4: "u_addToSet [ArrayCell [Num 1], ArrayCell [Num 3, Num 1, Num 3, Num 2]] (Ref 0) (Ref 1)
       Undefined
     = Some (Inr (Ref 0, [ArrayCell [Num 1, Num 3, Num 2], ArrayCell [Num 3, Num 1, Num 3, Num 2]]))"
    by simp
  from 1 2 3 4 show ?thesis by blast
qed

section \<open>Hook registration\<close>

text \<open>
  Claim C9. \<^verbatim>\<open>pre\<close> and \<^verbatim>\<open>post\<close> append the function to the list of the event and
  leave the other lists alone, so one registration on a new schema makes a list of
  length 1. Both fail with a TypeError when the event is neither \<^verbatim>\<open>save\<close> nor
  \<^verbatim>\<open>remove\<close>, and when the hook is not a function, whatever the event is.
\<close>

theorem hooks_registered_or_rejected:
  "pre hs (Str ''save'') (Callable f) = Inr (hs\<lparr>pre_save := pre_save hs @ [f]\<rparr>)
   \<and> pre hs (Str ''remove'') (Callable f) = Inr (hs\<lparr>pre_remove := pre_remove hs @ [f]\<rparr>)
   \<and> post hs (Str ''save'') (Callable f) = Inr (hs\<lparr>post_save := post_save hs @ [f]\<rparr>)
   \<and> post hs (Str ''remove'') (Callable f) = Inr (hs\<lparr>post_remove := post_remove hs @ [f]\<rparr>)
   \<and> (\<exists>hs'. pre new_hooks (Str ''save'') (Callable f) = Inr hs' \<and> length (pre_save hs') = 1)
   \<and> (\<exists>hs'. post new_hooks (Str ''save'') (Callable f) = Inr hs' \<and> length (post_save hs') = 1)
   \<and> (eventType \<noteq> Str ''save'' \<and> eventType \<noteq> Str ''remove'' \<longrightarrow>
        (\<exists>m. pre hs eventType fn = Inl (TypeError m))
        \<and> (\<exists>m. post hs eventType fn = Inl (TypeError m)))
   \<and> (\<exists>m. pre hs eventType (Other x) = Inl (TypeError m))
   \<and> (\<exists>m. post hs eventType (Other x) = Inl (TypeError m))"
  by (simp add: pre_def post_def new_hooks_def)

theorem hooks_registered_or_rejected_witness:
  "pre_save (projr (pre (new_hooks :: nat hooks) (Str ''save'') (Callable 7))) = [7]
   \<and> pre_remove (projr (pre (new_hooks :: nat hooks) (Str ''remove'') (Callable 7))) = [7]
   \<and> pre (new_hooks :: nat hooks) (Str ''wtf'') (Callable 7)
       = Inl (TypeError ''Hook type must be `save` or `remove`!'')
   \<and> post (new_hooks :: nat hooks) (Str ''save'') (Other Undefined)
       = Inl (TypeError ''Hook must be a function!'')"
proof -
  note t = hooks_registered_or_rejected [of "new_hooks :: nat hooks" 7 "Str ''wtf''" "Callable 7"
      Undefined]
  from t have 1: "pre_save (projr (pre (new_hooks :: nat hooks) (Str ''save'') (Callable 7))) = [7]"
    "pre_remove (projr (pre (new_hooks :: nat hooks) (Str ''remove'') (Callable 7))) = [7]"
    by (simp_all add: new_hooks_def)
  from t have "\<exists>m. pre (new_hooks :: nat hooks) (Str ''wtf'') (Callable 7) = Inl (TypeError m)"
    by simp
  then have 2: "pre (new_hooks :: nat hooks) (Str ''wtf'') (Callable 7)
       = Inl (TypeError ''Hook type must be `save` or `remove`!'')"
    by (auto simp: pre_def)
  from hooks_registered_or_rejected [of "new_hooks :: nat hooks" 7 "Str ''save''" "Callable 7"
      Undefined]
  have "\<exists>m. post (new_hooks :: nat hooks) (Str ''save'') (Other Undefined) = Inl (TypeError m)"
    by blast
  then have 3: "post (new_hooks :: nat hooks) (Str ''save'') (Other Undefined)
       = Inl (TypeError ''Hook must be a function!'')"
    by (auto simp: post_def)
  from 1 2 3 show ?thesis by blast
qed

end
